theory Spec2Isabelle
  imports Complex_Main "HOL-Library.Monad_Syntax" "HOL-Library.Sublist" "HOL-Library.Log_Nat"
begin

section \<open>The string routines of stringutils, embedded\<close>

text \<open>
  A \<open>std::string\<close> is a \<^typ>\<open>string\<close>, a list of 8-bit characters, whose length
  fits \<open>size_t\<close> (64 bits). An \<open>int\<close> has 32 bits. Where the code converts a
  \<open>size_t\<close> or a 64-bit count to \<open>int\<close>, the embedding keeps the low 32 bits, read in
  two's complement; where an \<open>int\<close> would be incremented past \<open>2^31 - 1\<close> the behaviour
  of the code is undefined, and the embedding gives no result. Failure to allocate
  memory is outside the embedding. A \<open>double\<close> is an IEEE 754 binary64 number, and
  every operation on doubles rounds its exact result to the nearest one, a tie going to
  the even significand.
\<close>

text \<open>
  The two ways in which the routines that build a table end without a result: the
  exception \<open>std::length_error\<close>, and undefined behaviour.
\<close>

datatype error = Length_error | Undefined_behaviour

subsection \<open>Conversion to int\<close>

text \<open>
  The value of \<open>static_cast<int>(x)\<close>, and of the implicit conversion in
  \<open>int m = s.length()\<close>, for a non-negative 64-bit \<open>x\<close>: \<open>x\<close> modulo \<open>2^32\<close>, less
  \<open>2^32\<close> when bit 31 is set.
\<close>

definition int_of_size :: "nat \<Rightarrow> int" where
  "int_of_size x = (let r = int x mod 2 ^ 32 in if r < 2 ^ 31 then r else r - 2 ^ 32)"

subsection \<open>reverse_string\<close>

text \<open>\<open>std::reverse\<close> over the whole copy is \<^const>\<open>rev\<close>.\<close>

definition reverse_string :: "string \<Rightarrow> string" where
  "reverse_string input = (if input = [] then input else rev input)"

subsection \<open>count_char\<close>

text \<open>
  \<open>std::count\<close> over the whole string is \<^const>\<open>count_list\<close>; its 64-bit result is
  cast to \<open>int\<close>.
\<close>

definition count_char :: "string \<Rightarrow> char \<Rightarrow> int" where
  "count_char input c = (if input = [] then 0 else int_of_size (count_list input c))"

subsection \<open>remove_duplicates\<close>

text \<open>
  The loop over the characters of the input, with the map \<open>seen\<close> and the string
  \<open>result\<close> as its state.
\<close>

fun remove_duplicates_loop :: "string \<Rightarrow> (char \<rightharpoonup> bool) \<Rightarrow> string \<Rightarrow> string" where
  "remove_duplicates_loop [] seen result = result"
| "remove_duplicates_loop (c # cs) seen result =
     (if seen c = None
      then remove_duplicates_loop cs (seen(c \<mapsto> True)) (result @ [c])
      else remove_duplicates_loop cs seen result)"

definition remove_duplicates :: "string \<Rightarrow> string" where
  "remove_duplicates input = remove_duplicates_loop input Map.empty []"

text \<open>The positions of a string whose character does not occur at an earlier position.\<close>

definition first_occurrences :: "string \<Rightarrow> nat list" where
  "first_occurrences s = filter (\<lambda>i. s ! i \<notin> set (take i s)) [0..<length s]"

subsection \<open>validate_dna\<close>

text \<open>
  \<open>std::toupper\<close> belongs to the C library, not to the repository; it is taken in the
  "C" locale, where it maps the letters \<open>a\<close> to \<open>z\<close> (codes 97 to 122) to \<open>A\<close> to \<open>Z\<close>
  and leaves every other byte alone. The casts to \<open>unsigned char\<close> and back to
  \<open>char\<close> do not change the byte.
\<close>

definition toupper :: "char \<Rightarrow> char" where
  "toupper c =
     (if (97::nat) \<le> of_char c \<and> of_char c \<le> (122::nat)
      then char_of (of_char c - (32::nat)) else c)"

text \<open>The lambda handed to \<open>std::all_of\<close>.\<close>

definition is_nucleotide :: "char \<Rightarrow> bool" where
  "is_nucleotide c =
     (let upper_c = toupper c
      in upper_c = CHR ''A'' \<or> upper_c = CHR ''T'' \<or> upper_c = CHR ''G'' \<or> upper_c = CHR ''C'')"

definition validate_dna :: "string \<Rightarrow> bool" where
  "validate_dna sequence = (if sequence = [] then True else list_all is_nucleotide sequence)"

subsection \<open>calculate_gc_content\<close>

text \<open>
  A finite \<open>double\<close> is the rational number it stands for. \<open>pow2 e\<close> is \<open>2^e\<close> for an
  integer \<open>e\<close>. \<open>round_half_even\<close> rounds to the nearest integer, a tie going to the
  even one. \<open>binary_exponent x\<close> is, for \<open>x > 0\<close>, the \<open>e\<close> with
  \<open>2^e \<le> x < 2^(e+1)\<close>: the difference of the bit lengths of numerator and
  denominator, or one less.
\<close>

definition pow2 :: "int \<Rightarrow> rat" where
  "pow2 e = (if 0 \<le> e then 2 ^ nat e else 1 / 2 ^ nat (- e))"

definition round_half_even :: "rat \<Rightarrow> int" where
  "round_half_even x =
     (let f = \<lfloor>x\<rfloor>; d = x - of_int f
      in if d < 1 / 2 then f else if 1 / 2 < d then f + 1 else if even f then f else f + 1)"

definition binary_exponent :: "rat \<Rightarrow> int" where
  "binary_exponent x =
     (let (a, b) = quotient_of x; e = bitlen a - bitlen b
      in if pow2 e \<le> x then e else e - 1)"

text \<open>
  \<open>double_round x\<close> is the double nearest to \<open>x\<close>: a multiple of
  \<open>2^(e - 52)\<close>, where \<open>e\<close> is the binary exponent of \<open>x\<close>, so that the significand
  has 53 bits. The exponent is not bounded here: every number the routine below rounds
  is 0 or of magnitude between \<open>2^(-64)\<close> and \<open>2^64\<close>, far inside the range of the
  normal doubles (\<open>2^(-1022)\<close> to \<open>2^1024\<close>), so that no operation overflows or
  underflows.
\<close>

definition round_positive :: "rat \<Rightarrow> rat" where
  "round_positive x =
     (let ulp = pow2 (binary_exponent x - 52)
      in of_int (round_half_even (x / ulp)) * ulp)"

definition double_round :: "rat \<Rightarrow> rat" where
  "double_round x =
     (if x = 0 then 0 else if x < 0 then - round_positive (- x) else round_positive x)"



subsection \<open>find_pattern\<close>

text \<open>
  The searcher is embedded in the option monad. \<open>None\<close> stands for a run that gives
  no result: a read or a write outside a string or a vector (undefined behaviour in
  C++), or a \<open>while\<close> loop that never ends. \<open>at_index\<close> is a checked read,
  \<open>store_at\<close> a checked write. The read of a \<open>std::string\<close> at its own length,
  which C++ defines (it gives the terminating zero), counts as outside here: the
  embedding is the stricter of the two.
\<close>

definition at_index :: "'a list \<Rightarrow> nat \<Rightarrow> 'a option" where
  "at_index xs i = (if i < length xs then Some (xs ! i) else None)"

definition store_at :: "'a list \<Rightarrow> nat \<Rightarrow> 'a \<Rightarrow> 'a list option" where
  "store_at xs i v = (if i < length xs then Some (xs[i := v]) else None)"

text \<open>
  The loop \<open>while (j > 0 && c != pattern[j]) j = failure[j - 1];\<close>, which occurs with
  the same text in the construction of the failure table (\<open>c\<close> is \<open>pattern[i]\<close>) and in
  the scan (\<open>c\<close> is \<open>text[i]\<close>). The right operand of \<open>&&\<close> is read only when
  \<open>j > 0\<close>. Nothing in the loop itself bounds the number of iterations, so it is a
  partial function.
\<close>

partial_function (option) fall_back :: "string \<Rightarrow> nat list \<Rightarrow> char \<Rightarrow> nat \<Rightarrow> nat option" where
  "fall_back pattern failure c j =
     (if j > 0 then
        do { pj \<leftarrow> at_index pattern j;
             if c \<noteq> pj
             then do { j' \<leftarrow> at_index failure (j - 1); fall_back pattern failure c j' }
             else Some j }
      else Some j)"

declare fall_back.simps [code]

text \<open>
  The common head of both loop bodies: the \<open>while\<close> loop, then
  \<open>if (c == pattern[j]) ++j;\<close>. \<open>j\<close> is an \<open>int\<close>: incrementing it at \<open>2^31 - 1\<close>
  is undefined.
\<close>

definition advance :: "string \<Rightarrow> nat list \<Rightarrow> char \<Rightarrow> nat \<Rightarrow> nat option" where
  "advance pattern failure c j =
     do { j1 \<leftarrow> fall_back pattern failure c j;
          pj \<leftarrow> at_index pattern j1;
          if c = pj then (if int j1 + 1 < 2 ^ 31 then Some (j1 + 1) else None) else Some j1 }"

text \<open>
  The \<open>for\<close> loop of the lambda \<open>build_failure_function\<close>, from \<open>i = 1\<close>, with
  \<open>j\<close> and the vector \<open>failure\<close> as its state.
\<close>

function build_failure_loop :: "string \<Rightarrow> nat \<Rightarrow> nat \<Rightarrow> nat list \<Rightarrow> nat list option" where
  "build_failure_loop pattern i j failure =
     (if i < length pattern then
        do { c \<leftarrow> at_index pattern i;
             j' \<leftarrow> advance pattern failure c j;
             failure' \<leftarrow> store_at failure i j';
             build_failure_loop pattern (i + 1) j' failure' }
      else Some failure)"
  by pat_completeness auto
termination
  by (relation "measure (\<lambda>(pattern, i, j, failure). length pattern - i)") auto

definition build_failure_function :: "string \<Rightarrow> nat list option" where
  "build_failure_function pattern =
     build_failure_loop pattern 1 0 (replicate (length pattern) 0)"

text \<open>
  \<open>static_cast<int>(i - pattern.length() + 1)\<close>: the difference is computed in
  \<open>size_t\<close>, modulo \<open>2^64\<close>, and then cast.
\<close>

definition offset_cast :: "nat \<Rightarrow> nat \<Rightarrow> int" where
  "offset_cast i m = int_of_size (nat ((int i - int m + 1) mod 2 ^ 64))"

text \<open>The scan of the text. On a full match the offset is pushed.\<close>

function find_pattern_loop ::
  "string \<Rightarrow> string \<Rightarrow> nat list \<Rightarrow> nat \<Rightarrow> nat \<Rightarrow> int list \<Rightarrow> int list option" where
  "find_pattern_loop text pattern failure i j positions =
     (if i < length text then
        do { c \<leftarrow> at_index text i;
             j1 \<leftarrow> advance pattern failure c j;
             if j1 = length pattern
             then do { j2 \<leftarrow> at_index failure (j1 - 1);
                       find_pattern_loop text pattern failure (i + 1) j2
                         (positions @ [offset_cast i (length pattern)]) }
             else find_pattern_loop text pattern failure (i + 1) j1 positions }
      else Some positions)"
  by pat_completeness auto
termination
  by (relation "measure (\<lambda>(text, pattern, failure, i, j, positions). length text - i)") auto

definition find_pattern :: "string \<Rightarrow> string \<Rightarrow> int list option" where
  "find_pattern text pattern =
     (if pattern = [] \<or> text = [] \<or> length pattern > length text then Some []
      else do { failure \<leftarrow> build_failure_function pattern;
                find_pattern_loop text pattern failure 0 0 [] })"

subsection \<open>What the searcher is to compute\<close>

text \<open>
  \<open>prefix_suffix p w k\<close>: the first \<open>k\<close> characters of \<open>p\<close> end the string \<open>w\<close>.
  \<open>longest_prefix_suffix p w b j\<close>: \<open>j\<close> is the greatest such \<open>k\<close> that is at most \<open>b\<close>.
  \<open>failure_upto p f n\<close>: the first \<open>n\<close> entries of \<open>f\<close> are those of the failure table
  of \<open>p\<close>, entry \<open>i\<close> being the length of the longest proper prefix of
  \<open>p[0..i]\<close> that also ends it.
\<close>

definition prefix_suffix :: "'a list \<Rightarrow> 'a list \<Rightarrow> nat \<Rightarrow> bool" where
  "prefix_suffix p w k \<longleftrightarrow> k \<le> length p \<and> suffix (take k p) w"

definition longest_prefix_suffix :: "'a list \<Rightarrow> 'a list \<Rightarrow> nat \<Rightarrow> nat \<Rightarrow> bool" where
  "longest_prefix_suffix p w b j \<longleftrightarrow>
     j \<le> b \<and> prefix_suffix p w j \<and> (\<forall>k. k \<le> b \<and> prefix_suffix p w k \<longrightarrow> k \<le> j)"

definition failure_upto :: "'a list \<Rightarrow> nat list \<Rightarrow> nat \<Rightarrow> bool" where
  "failure_upto p f n \<longleftrightarrow>
     n \<le> length f \<and> (\<forall>i<n. longest_prefix_suffix p (take (Suc i) p) i (f ! i))"

text \<open>
  The pattern occurs in the text at offset \<open>q\<close>; the offsets of all occurrences, in
  ascending order.
\<close>

definition occurs_at :: "string \<Rightarrow> string \<Rightarrow> nat \<Rightarrow> bool" where
  "occurs_at text pattern q \<longleftrightarrow> take (length pattern) (drop q text) = pattern"

definition occurrences :: "string \<Rightarrow> string \<Rightarrow> nat list" where
  "occurrences text pattern =
     filter (occurs_at text pattern) [0..<length text + 1 - length pattern]"

subsection \<open>The tables of the dynamic-programming routines\<close>

text \<open>
  A \<open>std::vector<std::vector<int>>\<close> is a list of rows. \<open>cell\<close> reads \<open>dp[i][j]\<close>,
  \<open>set_cell\<close> is the assignment \<open>dp[i][j] = v\<close>. Both routines index a table of
  \<open>m + 1\<close> rows and \<open>n + 1\<close> columns with \<open>0 \<le> i \<le> m\<close> and \<open>0 \<le> j \<le> n\<close> only,
  and a string at \<open>i - 1\<close> and \<open>j - 1\<close> with \<open>1 \<le> i \<le> m\<close> and \<open>1 \<le> j \<le> n\<close>.
\<close>

type_synonym table = "int list list"

definition cell :: "table \<Rightarrow> nat \<Rightarrow> nat \<Rightarrow> int" where
  "cell dp i j = dp ! i ! j"

definition set_cell :: "table \<Rightarrow> nat \<Rightarrow> nat \<Rightarrow> int \<Rightarrow> table" where
  "set_cell dp i j v = dp[i := (dp ! i)[j := v]]"

text \<open>
  \<open>for (int k = lo; k <= hi; k++) body\<close>, with the state the body changes passed
  through.
\<close>

function for_loop :: "nat \<Rightarrow> nat \<Rightarrow> (nat \<Rightarrow> 's \<Rightarrow> 's) \<Rightarrow> 's \<Rightarrow> 's" where
  "for_loop k hi body s = (if k \<le> hi then for_loop (k + 1) hi body (body k s) else s)"
  by pat_completeness auto
termination
  by (relation "measure (\<lambda>(k, hi, body, s). hi + 1 - k)") auto

text \<open>
  The construction \<open>dp(m + 1, std::vector<int>(n + 1, 0))\<close> for the \<open>int\<close>s \<open>m\<close> and
  \<open>n\<close>. The sum \<open>m + 1\<close> overflows when \<open>m\<close> is \<open>2^31 - 1\<close>. A negative \<open>m + 1\<close>
  becomes, as a \<open>size_t\<close>, a size of at least \<open>2^64 - 2^31\<close>, above \<open>max_size()\<close>,
  and the constructor throws \<open>std::length_error\<close>. Otherwise the table has \<open>m + 1\<close>
  rows of \<open>n + 1\<close> zeros; it has no row when \<open>m\<close> is \<open>-1\<close> and its rows are empty when
  \<open>n\<close> is \<open>-1\<close>.
\<close>

definition new_table :: "int \<Rightarrow> int \<Rightarrow> error + table" where
  "new_table m n =
     (if m = 2 ^ 31 - 1 \<or> n = 2 ^ 31 - 1 then Inl Undefined_behaviour
      else if m + 1 < 0 \<or> n + 1 < 0 then Inl Length_error
      else Inr (replicate (nat (m + 1)) (replicate (nat (n + 1)) 0)))"

subsection \<open>levenshtein_distance\<close>

text \<open>
  The value the body of the inner loop stores in \<open>dp[i][j]\<close>;
  \<open>std::min\<close> of an initializer list is the least of its elements.
\<close>

definition levenshtein_cell :: "string \<Rightarrow> string \<Rightarrow> table \<Rightarrow> nat \<Rightarrow> nat \<Rightarrow> int" where
  "levenshtein_cell str1 str2 dp i j =
     (if str1 ! (i - 1) = str2 ! (j - 1) then cell dp (i - 1) (j - 1)
      else 1 + Min {cell dp (i - 1) j, cell dp i (j - 1), cell dp (i - 1) (j - 1)})"

text \<open>
  The loops over a table of \<open>m + 1\<close> rows and \<open>n + 1\<close> columns, for \<open>m\<close> and \<open>n\<close> not
  negative: one loop for the first column, one for the first row, the nested pair from
  1, and the read of \<open>dp[m][n]\<close>.
\<close>

definition levenshtein_loops :: "string \<Rightarrow> string \<Rightarrow> nat \<Rightarrow> nat \<Rightarrow> table \<Rightarrow> int" where
  "levenshtein_loops str1 str2 m n dp =
     (let dp = for_loop 0 m (\<lambda>i dp. set_cell dp i 0 (int i)) dp;
          dp = for_loop 0 n (\<lambda>j dp. set_cell dp 0 j (int j)) dp;
          dp = for_loop 1 m (\<lambda>i dp.
                 for_loop 1 n (\<lambda>j dp. set_cell dp i j (levenshtein_cell str1 str2 dp i j)) dp) dp
      in cell dp m n)"

text \<open>
  \<open>int m = str1.length()\<close> and \<open>int n = str2.length()\<close> keep the low 32 bits of the
  lengths. The vector is value-initialised (all cells 0). When \<open>m\<close> or \<open>n\<close> is \<open>-1\<close>
  the table has no cell, and the routine writes \<open>dp[0][0]\<close> or reads \<open>dp[m][n]\<close>
  outside it. Otherwise \<open>0 \<le> m \<le> str1.length()\<close> and \<open>0 \<le> n \<le> str2.length()\<close>, all
  indices are in range, and no cell exceeds the larger of \<open>m\<close> and \<open>n\<close>.
\<close>

definition levenshtein_distance :: "string \<Rightarrow> string \<Rightarrow> error + int" where
  "levenshtein_distance str1 str2 =
     (let m = int_of_size (length str1);
          n = int_of_size (length str2)
      in case new_table m n of
           Inl e \<Rightarrow> Inl e
         | Inr dp \<Rightarrow>
             if m < 0 \<or> n < 0 then Inl Undefined_behaviour
             else Inr (levenshtein_loops str1 str2 (nat m) (nat n) dp))"

subsection \<open>longest_common_subsequence\<close>

text \<open>The value the body of the inner loop stores in \<open>dp[i][j]\<close>.\<close>

definition lcs_cell :: "string \<Rightarrow> string \<Rightarrow> table \<Rightarrow> nat \<Rightarrow> nat \<Rightarrow> int" where
  "lcs_cell str1 str2 dp i j =
     (if str1 ! (i - 1) = str2 ! (j - 1) then cell dp (i - 1) (j - 1) + 1
      else max (cell dp (i - 1) j) (cell dp i (j - 1)))"

text \<open>
  The \<open>while (i > 0 && j > 0)\<close> loop that rebuilds the subsequence;
  \<open>result = str1[i-1] + result\<close> puts the character in front.
\<close>

function lcs_backtrack :: "string \<Rightarrow> string \<Rightarrow> table \<Rightarrow> nat \<Rightarrow> nat \<Rightarrow> string \<Rightarrow> string" where
  "lcs_backtrack str1 str2 dp i j result =
     (if i > 0 \<and> j > 0 then
        if str1 ! (i - 1) = str2 ! (j - 1)
        then lcs_backtrack str1 str2 dp (i - 1) (j - 1) (str1 ! (i - 1) # result)
        else if cell dp (i - 1) j > cell dp i (j - 1)
        then lcs_backtrack str1 str2 dp (i - 1) j result
        else lcs_backtrack str1 str2 dp i (j - 1) result
      else result)"
  by pat_completeness auto
termination
  by (relation "measure (\<lambda>(str1, str2, dp, i, j, result). i + j)") auto

text \<open>
  The loops over a table of \<open>m + 1\<close> rows and \<open>n + 1\<close> columns, for \<open>m\<close> and \<open>n\<close> not
  negative: the nested pair from 1, then the backtracking from \<open>(m, n)\<close>.
\<close>

definition lcs_loops :: "string \<Rightarrow> string \<Rightarrow> nat \<Rightarrow> nat \<Rightarrow> table \<Rightarrow> string" where
  "lcs_loops str1 str2 m n dp =
     (let dp = for_loop 1 m (\<lambda>i dp.
                 for_loop 1 n (\<lambda>j dp. set_cell dp i j (lcs_cell str1 str2 dp i j)) dp) dp
      in lcs_backtrack str1 str2 dp m n [])"

text \<open>
  \<open>int m = str1.length()\<close> and \<open>int n = str2.length()\<close> keep the low 32 bits of the
  lengths. When \<open>m\<close> or \<open>n\<close> is \<open>-1\<close> no body of the \<open>for\<close> loops over \<open>1 \<le> i \<le> m\<close>,
  \<open>1 \<le> j \<le> n\<close> and no body of the \<open>while (i > 0 && j > 0)\<close> loop is run, the table is
  never indexed, and the result is empty. Otherwise \<open>0 \<le> m \<le> str1.length()\<close> and
  \<open>0 \<le> n \<le> str2.length()\<close>, and all indices are in range.
\<close>

definition longest_common_subsequence :: "string \<Rightarrow> string \<Rightarrow> error + string" where
  "longest_common_subsequence str1 str2 =
     (let m = int_of_size (length str1);
          n = int_of_size (length str2)
      in case new_table m n of
           Inl e \<Rightarrow> Inl e
         | Inr dp \<Rightarrow>
             if m < 0 \<or> n < 0 then Inr []
             else Inr (lcs_loops str1 str2 (nat m) (nat n) dp))"

subsection \<open>The recurrences the tables are to hold\<close>

text \<open>
  The classic recurrence of the edit distance: \<open>dp[i][0] = i\<close>, \<open>dp[0][j] = j\<close>, and
  otherwise the least of a deletion, an insertion (cost 1 each) and a substitution
  (cost 1) or match (cost 0).
\<close>

fun lev_dp :: "string \<Rightarrow> string \<Rightarrow> nat \<Rightarrow> nat \<Rightarrow> int" where
  "lev_dp s t i 0 = int i"
| "lev_dp s t 0 j = int j"
| "lev_dp s t (Suc i) (Suc j) =
     min (min (lev_dp s t i (Suc j) + 1) (lev_dp s t (Suc i) j + 1))
         (lev_dp s t i j + (if s ! i = t ! j then 0 else 1))"

text \<open>
  The edit distance itself. \<open>edits xs ys k\<close>: \<open>xs\<close> is turned into \<open>ys\<close> by \<open>k\<close>
  single-character deletions, insertions and substitutions, the two strings being
  aligned from left to right; a character kept in place costs nothing.
\<close>

inductive edits :: "string \<Rightarrow> string \<Rightarrow> nat \<Rightarrow> bool" where
  edits_empty: "edits [] [] 0"
| edits_delete: "edits xs ys k \<Longrightarrow> edits (xs @ [x]) ys (Suc k)"
| edits_insert: "edits xs ys k \<Longrightarrow> edits xs (ys @ [y]) (Suc k)"
| edits_substitute: "edits xs ys k \<Longrightarrow> edits (xs @ [x]) (ys @ [y]) (Suc k)"
| edits_match: "edits xs ys k \<Longrightarrow> edits (xs @ [x]) (ys @ [x]) k"

text \<open>The standard table of the longest common subsequence of two prefixes.\<close>

fun lcs_dp :: "string \<Rightarrow> string \<Rightarrow> nat \<Rightarrow> nat \<Rightarrow> int" where
  "lcs_dp s t 0 j = 0"
| "lcs_dp s t i 0 = 0"
| "lcs_dp s t (Suc i) (Suc j) =
     (if s ! i = t ! j then lcs_dp s t i j + 1
      else max (lcs_dp s t i (Suc j)) (lcs_dp s t (Suc i) j))"

text \<open>
  Backtracking over the standard table, from cell \<open>(i, j)\<close>: on equal characters take
  the character and go diagonally; otherwise go to the larger of the cell above and the
  cell to the left; when the two are equal, go up (decrement the first index) if
  \<open>tie_up\<close>, and left (decrement the second index) if not.
\<close>

function backtrack_spec :: "bool \<Rightarrow> string \<Rightarrow> string \<Rightarrow> nat \<Rightarrow> nat \<Rightarrow> string \<Rightarrow> string" where
  "backtrack_spec tie_up s t i j acc =
     (if i = 0 \<or> j = 0 then acc
      else if s ! (i - 1) = t ! (j - 1) then backtrack_spec tie_up s t (i - 1) (j - 1) (s ! (i - 1) # acc)
      else if lcs_dp s t (i - 1) j > lcs_dp s t i (j - 1) then backtrack_spec tie_up s t (i - 1) j acc
      else if lcs_dp s t (i - 1) j < lcs_dp s t i (j - 1) then backtrack_spec tie_up s t i (j - 1) acc
      else if tie_up then backtrack_spec tie_up s t (i - 1) j acc
      else backtrack_spec tie_up s t i (j - 1) acc)"
  by pat_completeness auto
termination
  by (relation "measure (\<lambda>(tie_up, s, t, i, j, acc). i + j)") auto

text \<open>
  \<open>dims\<close>: the table has \<open>m + 1\<close> rows of \<open>n + 1\<close> cells. \<open>filled D dp m n i j\<close>: row 0,
  column 0, the rows before \<open>i\<close> and the cells of row \<open>i\<close> before column \<open>j\<close> hold the
  values of \<open>D\<close>.
\<close>

definition dims :: "table \<Rightarrow> nat \<Rightarrow> nat \<Rightarrow> bool" where
  "dims dp m n \<longleftrightarrow> length dp = m + 1 \<and> (\<forall>r\<le>m. length (dp ! r) = n + 1)"

definition filled :: "(nat \<Rightarrow> nat \<Rightarrow> int) \<Rightarrow> table \<Rightarrow> nat \<Rightarrow> nat \<Rightarrow> nat \<Rightarrow> nat \<Rightarrow> bool" where
  "filled D dp m n i j \<longleftrightarrow>
     dims dp m n \<and>
     (\<forall>r c. r \<le> m \<and> c \<le> n \<and> (r = 0 \<or> c = 0 \<or> r < i \<or> (r = i \<and> c < j))
        \<longrightarrow> cell dp r c = D r c)"

declare for_loop.simps [simp del] lcs_backtrack.simps [simp del] backtrack_spec.simps [simp del]


section \<open>Properties\<close>

subsection \<open>Reversal\<close>

text \<open>
  C6. Reversing a string twice gives the string back, for every string, the empty one
  included.
\<close>

theorem reverse_string_involution: "reverse_string (reverse_string s) = s"
  by (simp add: reverse_string_def)

subsection \<open>Character counting\<close>

lemma int_of_size_mod:
  "int_of_size x = (let r = int (x mod 2 ^ 32) in if r < 2 ^ 31 then r else r - 2 ^ 32)"
  by (simp add: int_of_size_def zmod_int)

lemma int_of_size_small: "x < 2 ^ 31 \<Longrightarrow> int_of_size x = int x"
  by (simp add: int_of_size_mod)

lemma count_list_replicate: "count_list (replicate n x) x = n"
  by (induction n) simp_all

lemma count_char_small:
  assumes "length s < 2 ^ 31"
  shows "count_char s c = int (count_list s c)"
proof -
  have "count_list s c \<le> length s" by (rule count_le_length)
  then have "count_list s c < 2 ^ 31" using assms by linarith
  then show ?thesis by (cases s) (simp_all add: count_char_def int_of_size_small)
qed

lemma count_char_sum:
  assumes "length s < 2 ^ 31"
  shows "(\<Sum>c\<in>set s. count_char s c) = int (length s)"
proof -
  have "(\<Sum>c\<in>set s. count_char s c) = (\<Sum>c\<in>set s. int (count_list s c))"
    by (simp only: count_char_small [OF assms])
  also have "\<dots> = int (\<Sum>c\<in>set s. count_list s c)" by simp
  also have "\<dots> = int (length s)" by (simp add: sum_count_set)
  finally show ?thesis .
qed

lemma count_char_filter:
  assumes "length s < 2 ^ 31"
  shows "count_char s c = int (length (filter (\<lambda>x. x = c) s))"
proof -
  have "filter (\<lambda>x. x = c) s = filter ((=) c) s" by (rule filter_cong) auto
  then show ?thesis
    by (simp add: count_char_small [OF assms] count_list_eq_length_filter)
qed

text \<open>
  C7, as the claim states it, for every string, fails: on \<open>2^31\<close> copies of one
  character the 64-bit count \<open>2^31\<close> is cast to the \<open>int\<close> \<open>-2^31\<close>, which is negative
  and is not the length.
\<close>

theorem count_char_cast_counterexample:
  "count_char (replicate (2 ^ 31) CHR ''a'') CHR ''a'' = - 2147483648
   \<and> (\<Sum>c\<in>set (replicate (2 ^ 31) CHR ''a''). count_char (replicate (2 ^ 31) CHR ''a'') c)
       \<noteq> int (length (replicate (2 ^ 31) CHR ''a''))"
proof -
  have ne: "replicate (2 ^ 31) CHR ''a'' \<noteq> []" by simp
  have st: "set (replicate (2 ^ 31) CHR ''a'') = {CHR ''a''}" by simp
  have v: "count_char (replicate (2 ^ 31) CHR ''a'') CHR ''a'' = - 2147483648"
    using ne by (simp add: count_char_def count_list_replicate int_of_size_mod)
  show ?thesis unfolding st using v by simp
qed

text \<open>
  C7, amended. For every string of fewer than \<open>2^31\<close> characters, the counts of its
  distinct characters add up to its length; \<open>count_char\<close> is the number of positions
  holding exactly the given character (so it is case-sensitive) and is never negative.
  On the empty string it is 0.
\<close>

theorem count_char_sum_length:
  "length s < 2 ^ 31 \<Longrightarrow>
   (\<Sum>c\<in>set s. count_char s c) = int (length s)
   \<and> count_char s c = int (length (filter (\<lambda>x. x = c) s))
   \<and> 0 \<le> count_char s c
   \<and> count_char [] c = 0"
proof -
  assume len: "length s < 2 ^ 31"
  have "0 \<le> count_char s c" by (simp add: count_char_small [OF len])
  moreover have "count_char [] c = 0" by (simp add: count_char_def)
  ultimately show ?thesis
    using count_char_sum [OF len] count_char_filter [OF len, of c] by blast
qed

theorem count_char_sum_length_witness:
  "length ''hello'' < 2 ^ 31
   \<and> (\<Sum>c\<in>set ''hello''. count_char ''hello'' c) = 5
   \<and> count_char ''hello'' CHR ''l'' = 2
   \<and> count_char ''hello'' CHR ''L'' = 0"
  using count_char_sum_length [of "''hello''" "CHR ''l''"]
    count_char_sum_length [of "''hello''" "CHR ''L''"]
  by simp

subsection \<open>Removing duplicates\<close>

lemma remove_duplicates_loop_positions:
  "dom seen = set pre \<Longrightarrow>
   remove_duplicates_loop cs seen result =
     result @ map ((!) (pre @ cs))
       (filter (\<lambda>i. (pre @ cs) ! i \<notin> set (take i (pre @ cs))) [length pre..<length pre + length cs])"
proof (induction cs arbitrary: seen pre result)
  case Nil
  then show ?case by simp
next
  case (Cons c cs)
  define xs where "xs = pre @ c # cs"
  define P where "P = (\<lambda>i. xs ! i \<notin> set (take i xs))"
  define rest where "rest = [Suc (length pre)..<Suc (length pre) + length cs]"
  have split: "[length pre..<length pre + length (c # cs)] = length pre # rest"
    using upt_conv_Cons [of "length pre" "length pre + Suc (length cs)"] by (simp add: rest_def)
  have here: "P (length pre) \<longleftrightarrow> c \<notin> set pre" and at_c: "xs ! length pre = c"
    by (simp_all add: P_def xs_def)
  have IH: "dom seen' = set (pre @ [c]) \<Longrightarrow>
      remove_duplicates_loop cs seen' result' =
        result' @ map ((!) xs) (filter P rest)"
    for seen' result'
    using Cons.IH [of seen' "pre @ [c]" result'] by (simp add: xs_def P_def rest_def)
  have goal: "remove_duplicates_loop (c # cs) seen result =
      result @ map ((!) xs) (filter P [length pre..<length pre + length (c # cs)])"
  proof (cases "seen c = None")
    case True
    then have notin: "c \<notin> set pre" using Cons.prems domIff [of c seen] by blast
    have d: "dom (seen(c \<mapsto> True)) = set (pre @ [c])" using Cons.prems by auto
    show ?thesis
      unfolding split using True notin IH [OF d, of "result @ [c]"] here at_c by simp
  next
    case False
    then have isin: "c \<in> set pre" using Cons.prems domIff [of c seen] by blast
    then have d: "dom seen = set (pre @ [c])" using Cons.prems by auto
    show ?thesis
      unfolding split using False isin IH [OF d, of result] here by auto
  qed
  then show ?case by (simp only: xs_def P_def)
qed

lemma remove_duplicates_positions:
  "remove_duplicates s = map ((!) s) (first_occurrences s)"
  using remove_duplicates_loop_positions [of Map.empty "[]" s "[]"]
  by (simp add: remove_duplicates_def first_occurrences_def)

lemma subseq_map_nth_filter_upt:
  "subseq (map ((!) s) (filter P [0..<length s])) s"
proof -
  have "subseq (map ((!) s) (filter P [0..<length s])) (map ((!) s) [0..<length s])"
    by (rule subseq_map) (rule subseq_filter_left)
  then show ?thesis by (simp add: map_nth)
qed

text \<open>
  C9. \<open>remove_duplicates\<close> returns the characters at the positions of the input that
  are the first occurrence of their character, in the order of the input; the result is a
  subsequence of the input, holds every character of the input, and holds none twice.
  On \<open>aabbcc\<close> it is \<open>abc\<close>.
\<close>

theorem remove_duplicates_first_occurrences:
  "remove_duplicates s = map ((!) s) (first_occurrences s)
   \<and> subseq (remove_duplicates s) s
   \<and> set (remove_duplicates s) = set s
   \<and> distinct (remove_duplicates s)
   \<and> remove_duplicates ''aabbcc'' = ''abc''"
proof -
  have pos: "remove_duplicates s = map ((!) s) (first_occurrences s)"
    by (rule remove_duplicates_positions)
  have sub: "subseq (remove_duplicates s) s"
    unfolding pos first_occurrences_def by (rule subseq_map_nth_filter_upt)
  have "set s \<subseteq> set (remove_duplicates s)"
  proof
    fix c assume "c \<in> set s"
    then obtain i where i: "i < length s" "s ! i = c" by (auto simp: in_set_conv_nth)
    define k where "k = (LEAST k. k < length s \<and> s ! k = c)"
    have k: "k < length s \<and> s ! k = c"
      unfolding k_def by (rule LeastI [of _ i]) (use i in simp)
    have "s ! k \<notin> set (take k s)"
    proof
      assume "s ! k \<in> set (take k s)"
      then obtain j where j: "j < k" "s ! j = s ! k"
        by (auto simp: in_set_conv_nth)
      then have "j < length s \<and> s ! j = c" using k by simp
      then have "k \<le> j" unfolding k_def by (rule Least_le)
      with j show False by simp
    qed
    then have "k \<in> set (first_occurrences s)"
      using k by (simp add: first_occurrences_def)
    then have "s ! k \<in> set (remove_duplicates s)" unfolding pos by simp
    then show "c \<in> set (remove_duplicates s)" using k by simp
  qed
  moreover have "set (remove_duplicates s) \<subseteq> set s"
    using sub list_emb_set [of "(=)" "remove_duplicates s" s] by blast
  ultimately have st: "set (remove_duplicates s) = set s" by blast
  have dist: "distinct (remove_duplicates s)"
    unfolding pos distinct_map
  proof
    show "distinct (first_occurrences s)" by (simp add: first_occurrences_def)
    show "inj_on ((!) s) (set (first_occurrences s))"
    proof (rule inj_onI)
      fix i j
      assume i: "i \<in> set (first_occurrences s)" and j: "j \<in> set (first_occurrences s)"
        and eq: "s ! i = s ! j"
      have fi: "i < length s" "s ! i \<notin> set (take i s)" and fj: "j < length s" "s ! j \<notin> set (take j s)"
        using i j by (simp_all add: first_occurrences_def)
      show "i = j"
      proof (rule ccontr)
        assume "i \<noteq> j"
        then consider "i < j" | "j < i" by linarith
        then show False
        proof cases
          case 1
          then have "s ! i \<in> set (take j s)" using fj(1) by (auto simp: in_set_conv_nth)
          with eq fj(2) show False by simp
        next
          case 2
          then have "s ! j \<in> set (take i s)" using fi(1) by (auto simp: in_set_conv_nth)
          with eq fi(2) show False by simp
        qed
      qed
    qed
  qed
  have ex: "remove_duplicates ''aabbcc'' = ''abc''" by (simp add: remove_duplicates_def)
  from pos sub st dist ex show ?thesis by blast
qed

subsection \<open>DNA validation\<close>

lemma of_char_toupper:
  "(of_char (toupper c) :: nat) =
     (if 97 \<le> (of_char c :: nat) \<and> (of_char c :: nat) \<le> 122 then of_char c - 32 else of_char c)"
proof -
  have "(of_char c :: nat) < 256" by simp
  then have "(of_char c - 32 :: nat) mod 256 = of_char c - 32"
    by (simp add: less_imp_diff_less)
  then show ?thesis by (simp add: toupper_def)
qed

lemma toupper_eq_iff:
  "toupper c = u \<longleftrightarrow>
     (if 97 \<le> (of_char c :: nat) \<and> (of_char c :: nat) \<le> 122 then of_char c - 32 else of_char c)
       = (of_char u :: nat)"
  using of_char_toupper [of c] of_char_eq_iff [of "toupper c" u, where ?'a = nat]
  by (simp del: of_char_eq_iff)

lemma char_eq_iff_nat: "c = u \<longleftrightarrow> (of_char c :: nat) = of_char u"
  by simp

lemma is_nucleotide_iff:
  "is_nucleotide c \<longleftrightarrow>
     c \<in> {CHR ''A'', CHR ''T'', CHR ''G'', CHR ''C'', CHR ''a'', CHR ''t'', CHR ''g'', CHR ''c''}"
  unfolding is_nucleotide_def Let_def toupper_eq_iff insert_iff empty_iff
  unfolding char_eq_iff_nat [of c]
  by (simp split: if_splits) arith

lemma validate_dna_list_all: "validate_dna s = list_all is_nucleotide s"
  by (cases s) (simp_all add: validate_dna_def)

text \<open>
  C4. \<open>validate_dna\<close> holds exactly when every character, put in upper case, is one of
  \<open>A\<close>, \<open>T\<close>, \<open>G\<close>, \<open>C\<close>, that is when every character is one of these four letters in
  either case. It holds of the empty string and of \<open>atgc\<close>, and fails on \<open>ATGCX\<close>.
\<close>

theorem validate_dna_iff:
  "(validate_dna s \<longleftrightarrow> (\<forall>c\<in>set s. toupper c \<in> {CHR ''A'', CHR ''T'', CHR ''G'', CHR ''C''}))
   \<and> (validate_dna s \<longleftrightarrow>
        set s \<subseteq> {CHR ''A'', CHR ''T'', CHR ''G'', CHR ''C'', CHR ''a'', CHR ''t'', CHR ''g'', CHR ''c''})
   \<and> validate_dna ''''
   \<and> validate_dna ''atgc''
   \<and> \<not> validate_dna ''ATGCX''"
proof -
  have a: "validate_dna s \<longleftrightarrow> (\<forall>c\<in>set s. toupper c \<in> {CHR ''A'', CHR ''T'', CHR ''G'', CHR ''C''})"
    unfolding validate_dna_list_all list_all_iff is_nucleotide_def Let_def by blast
  have b: "validate_dna s \<longleftrightarrow>
        set s \<subseteq> {CHR ''A'', CHR ''T'', CHR ''G'', CHR ''C'', CHR ''a'', CHR ''t'', CHR ''g'', CHR ''c''}"
    unfolding validate_dna_list_all list_all_iff is_nucleotide_iff by blast
  have c: "validate_dna ''''" "validate_dna ''atgc''" "\<not> validate_dna ''ATGCX''"
    by (simp_all add: validate_dna_list_all is_nucleotide_iff)
  from a b c show ?thesis by blast
qed

theorem validate_dna_iff_witness:
  "validate_dna ''GattaCa''
   \<and> \<not> validate_dna ''ACGU''
   \<and> \<not> (\<forall>c\<in>set ''ACGU''. toupper c \<in> {CHR ''A'', CHR ''T'', CHR ''G'', CHR ''C''})"
  using validate_dna_iff [of "''GattaCa''"] validate_dna_iff [of "''ACGU''"]
  by (simp add: toupper_eq_iff)

subsection \<open>GC content\<close>

lemma pow2_powi: "pow2 e = power_int 2 e"
  by (simp add: pow2_def power_int_def power_inverse inverse_eq_divide power_one_over)

lemma pow2_pos [simp]: "0 < pow2 e"
  by (simp add: pow2_powi)

lemma pow2_nonzero [simp]: "pow2 e \<noteq> 0"
  using pow2_pos [of e] by (simp del: pow2_pos)

lemma pow2_nonneg [simp]: "0 \<le> pow2 e"
  by (rule less_imp_le [OF pow2_pos])

lemma pow2_add: "pow2 (a + b) = pow2 a * pow2 b"
  by (simp add: pow2_powi power_int_add)



lemma pow2_strict_mono: "a < b \<Longrightarrow> pow2 a < pow2 b"
  by (simp add: pow2_powi power_int_strict_increasing)


lemma pow2_nat: "pow2 (int n) = 2 ^ n"
  by (simp add: pow2_def)

lemma pow2_numeral [simp]: "pow2 (numeral n) = 2 ^ numeral n"
  by (simp add: pow2_powi)

lemma pow2_0 [simp]: "pow2 0 = 1"
  by (simp add: pow2_def)

















lemma double_round_minus: "double_round (- x) = - double_round x"
  by (simp add: double_round_def)






subsection \<open>Pattern search\<close>

lemma prefix_suffix_0 [simp]: "prefix_suffix p w 0"
  by (simp add: prefix_suffix_def)

lemma prefix_suffix_length: "prefix_suffix p w k \<Longrightarrow> k \<le> length w"
  unfolding prefix_suffix_def using suffix_length_le [of "take k p" w] by simp

lemma prefix_suffix_Suc:
  "prefix_suffix p (w @ [c]) (Suc k) \<longleftrightarrow> k < length p \<and> p ! k = c \<and> prefix_suffix p w k"
proof (cases "k < length p")
  case True
  then have "take (Suc k) p = take k p @ [p ! k]" by (rule take_Suc_conv_app_nth)
  then show ?thesis
    using True by (simp add: prefix_suffix_def)
next
  case False
  then show ?thesis by (simp add: prefix_suffix_def)
qed

lemma prefix_suffix_chain:
  assumes "prefix_suffix p w j" and "k \<le> j"
  shows "prefix_suffix p w k \<longleftrightarrow> prefix_suffix p (take j p) k"
proof
  have j: "suffix (take j p) w" "j \<le> length p"
    using assms(1) unfolding prefix_suffix_def by blast+
  have len: "length (take k p) \<le> length (take j p)" using assms(2) by simp
  {
    assume "prefix_suffix p w k"
    then have k: "suffix (take k p) w" "k \<le> length p"
      unfolding prefix_suffix_def by blast+
    have "suffix (take k p) (take j p)"
      using k(1) j(1) len by (rule suffix_length_suffix)
    then show "prefix_suffix p (take j p) k"
      unfolding prefix_suffix_def using k(2) by simp
  }
  {
    assume "prefix_suffix p (take j p) k"
    then have "suffix (take k p) (take j p)"
      unfolding prefix_suffix_def by blast
    then have "suffix (take k p) w" using j(1) by (rule suffix_order.trans)
    then show "prefix_suffix p w k"
      unfolding prefix_suffix_def using assms(2) j(2) by simp
  }
qed

lemma fall_back_stop:
  "j = 0 \<or> (j < length p \<and> p ! j = c) \<Longrightarrow> fall_back p f c j = Some j"
  by (subst fall_back.simps) (auto simp: at_index_def)

lemma fall_back_step:
  "0 < j \<Longrightarrow> j < length p \<Longrightarrow> p ! j \<noteq> c \<Longrightarrow> j - 1 < length f \<Longrightarrow>
   fall_back p f c j = fall_back p f c (f ! (j - 1))"
  by (subst fall_back.simps) (auto simp: at_index_def)

lemma fall_back_correct:
  assumes tab: "failure_upto p f b" and b: "b < length p"
  shows "j \<le> b \<Longrightarrow> prefix_suffix p w j \<Longrightarrow>
    (\<forall>k. j < k \<and> k \<le> b \<and> prefix_suffix p w k \<longrightarrow> p ! k \<noteq> c) \<Longrightarrow>
    \<exists>j'. fall_back p f c j = Some j' \<and> j' \<le> j \<and> prefix_suffix p w j' \<and>
      (\<forall>k. j' < k \<and> k \<le> b \<and> prefix_suffix p w k \<longrightarrow> p ! k \<noteq> c) \<and>
      (j' = 0 \<or> p ! j' = c)"
proof (induction j rule: less_induct)
  case (less j)
  show ?case
  proof (cases "0 < j \<and> c \<noteq> p ! j")
    case False
    then have stop: "j = 0 \<or> p ! j = c" by auto
    then have "fall_back p f c j = Some j"
      using less.prems(1) b by (intro fall_back_stop) auto
    with stop show ?thesis using less.prems by (intro exI [of _ j]) simp
  next
    case True
    define j' where "j' = f ! (j - 1)"
    have Sj: "Suc (j - 1) = j" "j - 1 < b" using True less.prems(1) by linarith+
    have "longest_prefix_suffix p (take (Suc (j - 1)) p) (j - 1) (f ! (j - 1))"
      using tab Sj(2) unfolding failure_upto_def by blast
    then have lps: "longest_prefix_suffix p (take j p) (j - 1) j'"
      by (simp only: Sj(1) j'_def)
    have rd: "j - 1 < length f"
      using tab Sj(2) by (simp add: failure_upto_def)
    have j'_less: "j' < j" using lps True by (auto simp: longest_prefix_suffix_def)
    have step: "fall_back p f c j = fall_back p f c j'"
      unfolding j'_def using True less.prems(1) b rd by (intro fall_back_step) auto
    have ps: "prefix_suffix p w j'"
      using lps prefix_suffix_chain [OF less.prems(2), of j'] j'_less
      by (simp add: longest_prefix_suffix_def)
    have none: "\<forall>k. j' < k \<and> k \<le> b \<and> prefix_suffix p w k \<longrightarrow> p ! k \<noteq> c"
    proof (intro allI impI)
      fix k assume k: "j' < k \<and> k \<le> b \<and> prefix_suffix p w k"
      consider "j < k" | "k = j" | "k < j" by linarith
      then show "p ! k \<noteq> c"
      proof cases
        case 1 then show ?thesis using less.prems(3) k by blast
      next
        case 2 then show ?thesis using True by auto
      next
        case 3
        then have "prefix_suffix p (take j p) k"
          using prefix_suffix_chain [OF less.prems(2), of k] k by simp
        then have "k \<le> j'" using lps 3 by (auto simp: longest_prefix_suffix_def)
        then show ?thesis using k by simp
      qed
    qed
    have "j' \<le> b" using j'_less less.prems(1) by simp
    from less.IH [OF j'_less this ps none]
    obtain r where r: "fall_back p f c j' = Some r" "r \<le> j'" "prefix_suffix p w r"
      "\<forall>k. r < k \<and> k \<le> b \<and> prefix_suffix p w k \<longrightarrow> p ! k \<noteq> c" "r = 0 \<or> p ! r = c"
      by blast
    have "r \<le> j" using r(2) j'_less by simp
    with r step show ?thesis by (intro exI [of _ r]) simp
  qed
qed

lemma advance_correct:
  assumes tab: "failure_upto p f b" and b: "b < length p"
    and lps: "longest_prefix_suffix p w b j" and lim: "length p < 2 ^ 31"
  shows "\<exists>j'. advance p f c j = Some j' \<and> longest_prefix_suffix p (w @ [c]) (Suc b) j'"
proof -
  have j: "j \<le> b" "prefix_suffix p w j"
    and mx: "\<forall>k. j < k \<and> k \<le> b \<and> prefix_suffix p w k \<longrightarrow> p ! k \<noteq> c"
    using lps by (auto simp: longest_prefix_suffix_def)
  from fall_back_correct [OF tab b j mx]
  obtain j1 where fb: "fall_back p f c j = Some j1" and j1: "j1 \<le> j" "prefix_suffix p w j1"
    and none: "\<forall>k. j1 < k \<and> k \<le> b \<and> prefix_suffix p w k \<longrightarrow> p ! k \<noteq> c"
    and hit: "j1 = 0 \<or> p ! j1 = c"
    by blast
  have rd: "at_index p j1 = Some (p ! j1)" using j1(1) j(1) b by (simp add: at_index_def)
  define j' where "j' = (if c = p ! j1 then j1 + 1 else j1)"
  have "j1 + 1 < 2 ^ 31" using j1(1) j(1) b lim by linarith
  then have "int (j1 + 1) < int (2 ^ 31)" by (simp only: of_nat_less_iff)
  then have "int j1 + 1 < 2 ^ 31" by simp
  then have adv: "advance p f c j = Some j'"
    by (simp add: advance_def fb rd j'_def)
  have cand: "k \<le> j'" if k: "k \<le> Suc b" "prefix_suffix p (w @ [c]) k" for k
  proof (cases k)
    case 0 then show ?thesis by simp
  next
    case (Suc k')
    then have k': "k' < length p" "p ! k' = c" "prefix_suffix p w k'" "k' \<le> b"
      using k by (simp_all add: prefix_suffix_Suc)
    then have "\<not> j1 < k'" using none by blast
    moreover have "c = p ! j1"
    proof (rule ccontr)
      assume ne: "c \<noteq> p ! j1"
      then have "j1 = 0" using hit by auto
      then have "k' = 0" using \<open>\<not> j1 < k'\<close> by simp
      then show False using k'(2) ne \<open>j1 = 0\<close> by simp
    qed
    ultimately show ?thesis using Suc by (simp add: j'_def)
  qed
  have "prefix_suffix p (w @ [c]) j'"
  proof (cases "c = p ! j1")
    case True
    then show ?thesis using j1 j(1) b by (simp add: j'_def prefix_suffix_Suc)
  next
    case False
    then have "j1 = 0" using hit by auto
    then show ?thesis using False by (simp add: j'_def)
  qed
  moreover have "j' \<le> Suc b" using j1(1) j(1) by (simp add: j'_def)
  ultimately have "longest_prefix_suffix p (w @ [c]) (Suc b) j'"
    using cand by (auto simp: longest_prefix_suffix_def)
  with adv show ?thesis by blast
qed

lemma failure_upto_mono: "failure_upto p f n \<Longrightarrow> n' \<le> n \<Longrightarrow> failure_upto p f n'"
  unfolding failure_upto_def by simp

lemma failure_upto_entry:
  "failure_upto p f n \<Longrightarrow> 0 < i \<Longrightarrow> i \<le> n \<Longrightarrow>
   longest_prefix_suffix p (take i p) (i - 1) (f ! (i - 1))"
proof -
  assume a: "failure_upto p f n" "0 < i" "i \<le> n"
  then have "i - 1 < n" and S: "Suc (i - 1) = i" by linarith+
  then have "longest_prefix_suffix p (take (Suc (i - 1)) p) (i - 1) (f ! (i - 1))"
    using a(1) unfolding failure_upto_def by blast
  then show ?thesis by (simp only: S)
qed

lemma failure_upto_update:
  assumes "failure_upto p f i" and "i < length f"
    and "longest_prefix_suffix p (take (Suc i) p) i v"
  shows "failure_upto p (f[i := v]) (Suc i)"
  unfolding failure_upto_def
proof (intro conjI allI impI)
  show "Suc i \<le> length (f[i := v])" using assms(2) by simp
next
  fix k assume "k < Suc i"
  then consider "k < i" | "k = i" by linarith
  then show "longest_prefix_suffix p (take (Suc k) p) k (f[i := v] ! k)"
  proof cases
    case 1
    then have "f[i := v] ! k = f ! k" by simp
    then show ?thesis using assms(1) 1 unfolding failure_upto_def by simp
  next
    case 2
    then show ?thesis using assms(2,3) by simp
  qed
qed

lemma build_failure_loop_correct:
  assumes "0 < i" "i \<le> length p" "length f = length p" "failure_upto p f i" "j = f ! (i - 1)"
    and lim: "length p < 2 ^ 31"
  shows "\<exists>f'. build_failure_loop p i j f = Some f' \<and> length f' = length p \<and>
           failure_upto p f' (length p)"
  using assms(1-5)
proof (induction "length p - i" arbitrary: i j f)
  case 0
  then have "i = length p" by simp
  then have "build_failure_loop p i j f = Some f" by simp
  then show ?case using 0 \<open>i = length p\<close> by simp
next
  case (Suc d)
  then have i: "i < length p" by simp
  have rd: "at_index p i = Some (p ! i)" using i by (simp add: at_index_def)
  have lps: "longest_prefix_suffix p (take i p) (i - 1) j"
    using failure_upto_entry [OF Suc.prems(4) Suc.prems(1)] Suc.prems(5) by simp
  have tab: "failure_upto p f (i - 1)"
    using Suc.prems(4) by (rule failure_upto_mono) simp
  have b: "i - 1 < length p" using i by simp
  from advance_correct [OF tab b lps lim, of "p ! i"]
  obtain j' where adv: "advance p f (p ! i) j = Some j'"
    and lps': "longest_prefix_suffix p (take i p @ [p ! i]) (Suc (i - 1)) j'"
    by blast
  have "take i p @ [p ! i] = take (Suc i) p" using i by (simp add: take_Suc_conv_app_nth)
  moreover have "Suc (i - 1) = i" using Suc.prems(1) by simp
  ultimately have lps'': "longest_prefix_suffix p (take (Suc i) p) i j'"
    using lps' by simp
  have st: "store_at f i j' = Some (f[i := j'])"
    using i Suc.prems(3) by (simp add: store_at_def)
  have step: "build_failure_loop p i j f = build_failure_loop p (i + 1) j' (f[i := j'])"
    using i rd adv st by (subst build_failure_loop.simps) simp
  have tab': "failure_upto p (f[i := j']) (i + 1)"
    using failure_upto_update [OF Suc.prems(4) _ lps''] i Suc.prems(3) by simp
  have "\<exists>f'. build_failure_loop p (i + 1) j' (f[i := j']) = Some f' \<and> length f' = length p \<and>
           failure_upto p f' (length p)"
  proof (rule Suc.hyps(1))
    show "d = length p - (i + 1)" using Suc.hyps(2) by simp
    show "0 < i + 1" by simp
    show "i + 1 \<le> length p" using i by simp
    show "length (f[i := j']) = length p" using Suc.prems(3) by simp
    show "failure_upto p (f[i := j']) (i + 1)" by (rule tab')
    show "j' = f[i := j'] ! (i + 1 - 1)" using i Suc.prems(3) by simp
  qed
  then show ?case by (simp only: step)
qed

lemma build_failure_function_correct:
  assumes "p \<noteq> []" and lim: "length p < 2 ^ 31"
  shows "\<exists>f. build_failure_function p = Some f \<and> length f = length p \<and>
           failure_upto p f (length p)"
  unfolding build_failure_function_def
proof (rule build_failure_loop_correct)
  show "length p < 2 ^ 31" by (rule lim)
  show "0 < (1::nat)" by simp
  show "1 \<le> length p" using assms(1) by (cases p) simp_all
  show "length (replicate (length p) (0::nat)) = length p" by simp
  show "(0::nat) = replicate (length p) 0 ! (1 - 1)" using assms(1) by simp
  have "longest_prefix_suffix p (take (Suc 0) p) 0 0"
    by (simp add: longest_prefix_suffix_def)
  moreover have "Suc 0 \<le> length p" using assms(1) by (cases p) simp_all
  moreover have "replicate (length p) (0::nat) ! 0 = 0" using assms(1) by simp
  ultimately show "failure_upto p (replicate (length p) 0) 1"
    by (simp add: failure_upto_def)
qed

lemma suffix_take_occurs:
  assumes "Suc i \<le> length t"
  shows "suffix p (take (Suc i) t) \<longleftrightarrow> length p \<le> Suc i \<and> occurs_at t p (Suc i - length p)"
proof
  assume s: "suffix p (take (Suc i) t)"
  then have len: "length p \<le> Suc i" using suffix_length_le [OF s] assms by simp
  from s obtain zs where zs: "take (Suc i) t = zs @ p" by (auto simp: suffix_def)
  then have "length zs = Suc i - length p" using assms
    by (metis add_diff_cancel_right' length_append length_take min.absorb2)
  then have "drop (Suc i - length p) (take (Suc i) t) = p" using zs by simp
  then have "take (length p) (drop (Suc i - length p) t) = p"
    using len by (simp add: drop_take)
  then show "length p \<le> Suc i \<and> occurs_at t p (Suc i - length p)"
    using len by (simp add: occurs_at_def)
next
  assume a: "length p \<le> Suc i \<and> occurs_at t p (Suc i - length p)"
  then have "drop (Suc i - length p) (take (Suc i) t) = p"
    by (simp add: occurs_at_def drop_take)
  then show "suffix p (take (Suc i) t)"
    by (metis suffix_drop)
qed

lemma upt_window:
  assumes "m \<le> Suc i" and "i < n"
  shows "[i + 1 - m..<n + 1 - m] = (Suc i - m) # [i + 1 + 1 - m..<n + 1 - m]"
proof -
  have lt: "Suc i - m < n + 1 - m" using assms by linarith
  have S: "Suc (Suc i - m) = i + 1 + 1 - m" and E: "i + 1 - m = Suc i - m"
    using assms by linarith+
  show ?thesis using upt_conv_Cons [OF lt] by (simp only: S E)
qed

lemma offset_cast_eq:
  assumes "m \<le> Suc i"
  shows "offset_cast i m = int_of_size (Suc i - m)"
proof -
  have e: "int i - int m + 1 = int (Suc i - m)" using assms by simp
  have "(int i - int m + 1) mod 2 ^ 64 = int ((Suc i - m) mod 2 ^ 64)"
    unfolding e by (simp add: zmod_int)
  then have "nat ((int i - int m + 1) mod 2 ^ 64) = (Suc i - m) mod 2 ^ 64"
    by (simp only: nat_int)
  moreover have "((Suc i - m) mod 2 ^ 64) mod 2 ^ 32 = (Suc i - m) mod (2 ^ 32 :: nat)"
    by (rule mod_mod_cancel) simp
  ultimately show ?thesis by (simp add: offset_cast_def int_of_size_mod)
qed

lemma find_pattern_loop_correct:
  assumes "p \<noteq> []" "failure_upto p f (length p)" "i \<le> length t"
    "longest_prefix_suffix p (take i t) (length p - 1) j"
    and lim: "length p < 2 ^ 31"
  shows "find_pattern_loop t p f i j ps =
     Some (ps @ map int_of_size
       (filter (occurs_at t p) [i + 1 - length p..<length t + 1 - length p]))"
  using assms(3,4)
proof (induction "length t - i" arbitrary: i j ps)
  case 0
  then have "i = length t" by simp
  then show ?case by simp
next
  case (Suc d)
  define m where "m = length p"
  have m: "0 < m" using assms(1) by (simp add: m_def)
  have i: "i < length t" using Suc.hyps(2) by simp
  have rd: "at_index t i = Some (t ! i)" using i by (simp add: at_index_def)
  have tab: "failure_upto p f (m - 1)"
    using assms(2) unfolding m_def by (rule failure_upto_mono) simp
  have b: "m - 1 < length p" using m by (simp add: m_def)
  have w: "take i t @ [t ! i] = take (Suc i) t" using i by (simp add: take_Suc_conv_app_nth)
  from advance_correct [OF tab b Suc.prems(2) [folded m_def] lim, of "t ! i"]
  obtain j1 where adv: "advance p f (t ! i) j = Some j1"
    and lps1: "longest_prefix_suffix p (take (Suc i) t) m j1"
    using m w by auto
  have j1_m: "j1 = m \<longleftrightarrow> prefix_suffix p (take (Suc i) t) m"
    using lps1 by (auto simp: longest_prefix_suffix_def)
  have occ: "j1 = m \<longleftrightarrow> m \<le> Suc i \<and> occurs_at t p (Suc i - m)"
    unfolding j1_m using suffix_take_occurs [of i t p] i
    by (simp add: prefix_suffix_def m_def)
  show ?case
  proof (cases "j1 = m")
    case True
    then have mi: "m \<le> Suc i" and here: "occurs_at t p (Suc i - m)" using occ by simp_all
    define j2 where "j2 = f ! (m - 1)"
    have "m \<le> length f" using assms(2) by (simp add: failure_upto_def m_def)
    then have "m - 1 < length f" using m by linarith
    then have rd2: "at_index f (j1 - 1) = Some j2"
      using True by (simp add: at_index_def j2_def)
    have "longest_prefix_suffix p (take m p) (m - 1) j2"
      unfolding j2_def using failure_upto_entry [OF assms(2) m [unfolded m_def]]
      by (simp add: m_def)
    then have j2: "j2 \<le> m - 1" "prefix_suffix p (take m p) j2"
      "\<And>k. k \<le> m - 1 \<Longrightarrow> prefix_suffix p (take m p) k \<Longrightarrow> k \<le> j2"
      by (auto simp: longest_prefix_suffix_def)
    have psm: "prefix_suffix p (take (Suc i) t) m" using True j1_m by simp
    have lps2: "longest_prefix_suffix p (take (Suc i) t) (m - 1) j2"
      unfolding longest_prefix_suffix_def
    proof (intro conjI allI impI)
      show "j2 \<le> m - 1" by (rule j2(1))
      have "j2 \<le> m" using j2(1) by linarith
      then show "prefix_suffix p (take (Suc i) t) j2"
        using prefix_suffix_chain [OF psm, of j2] j2(2) by blast
      fix k assume k: "k \<le> m - 1 \<and> prefix_suffix p (take (Suc i) t) k"
      then have "k \<le> m" by linarith
      then have "prefix_suffix p (take m p) k"
        using prefix_suffix_chain [OF psm, of k] k by blast
      then show "k \<le> j2" using j2(3) k by simp
    qed
    have step: "find_pattern_loop t p f i j ps =
        find_pattern_loop t p f (i + 1) j2 (ps @ [offset_cast i (length p)])"
      using i rd adv True rd2 by (subst find_pattern_loop.simps) (simp add: m_def)
    have pos: "offset_cast i (length p) = int_of_size (Suc i - m)"
      using offset_cast_eq [OF mi] by (simp add: m_def)
    have rng: "[i + 1 - length p..<length t + 1 - length p] =
        (Suc i - m) # [i + 1 + 1 - length p..<length t + 1 - length p]"
      using upt_window [OF mi i] by (simp only: m_def)
    have "find_pattern_loop t p f (i + 1) j2 (ps @ [offset_cast i (length p)]) =
        Some ((ps @ [offset_cast i (length p)]) @
          map int_of_size (filter (occurs_at t p) [i + 1 + 1 - length p..<length t + 1 - length p]))"
    proof (rule Suc.hyps(1))
      show "d = length t - (i + 1)" using Suc.hyps(2) by simp
      show "i + 1 \<le> length t" using i by simp
      show "longest_prefix_suffix p (take (i + 1) t) (length p - 1) j2"
        using lps2 by (simp add: m_def)
    qed
    then show ?thesis unfolding step rng pos using here by simp
  next
    case False
    have "j1 \<le> m" using lps1 by (simp add: longest_prefix_suffix_def)
    then have j1: "j1 \<le> m - 1" using False by simp
    have lps2: "longest_prefix_suffix p (take (Suc i) t) (m - 1) j1"
      using lps1 j1 by (auto simp: longest_prefix_suffix_def)
    have step: "find_pattern_loop t p f i j ps = find_pattern_loop t p f (i + 1) j1 ps"
      using i rd adv False by (subst find_pattern_loop.simps) (simp add: m_def)
    have flt: "filter (occurs_at t p) [i + 1 - length p..<length t + 1 - length p] =
        filter (occurs_at t p) [i + 1 + 1 - length p..<length t + 1 - length p]"
    proof (cases "m \<le> Suc i")
      case True
      then have "[i + 1 - length p..<length t + 1 - length p] =
        (Suc i - m) # [i + 1 + 1 - length p..<length t + 1 - length p]"
        using upt_window [OF _ i, of m] by (simp only: m_def)
      moreover have "\<not> occurs_at t p (Suc i - m)" using occ False True by simp
      ultimately show ?thesis by simp
    next
      case False
      then have "i + 1 - length p = i + 1 + 1 - length p" by (simp add: m_def)
      then show ?thesis by simp
    qed
    have "find_pattern_loop t p f (i + 1) j1 ps =
        Some (ps @ map int_of_size (filter (occurs_at t p) [i + 1 + 1 - length p..<length t + 1 - length p]))"
    proof (rule Suc.hyps(1))
      show "d = length t - (i + 1)" using Suc.hyps(2) by simp
      show "i + 1 \<le> length t" using i by simp
      show "longest_prefix_suffix p (take (i + 1) t) (length p - 1) j1"
        using lps2 by (simp add: m_def)
    qed
    then show ?thesis unfolding step flt .
  qed
qed

lemma find_pattern_occurrences:
  assumes "pattern \<noteq> []" and lim: "length pattern < 2 ^ 31"
  shows "find_pattern text pattern = Some (map int_of_size (occurrences text pattern))"
proof (cases "text = [] \<or> length pattern > length text")
  case True
  then have "length text + 1 - length pattern = 0" using assms(1) by (cases pattern) auto
  then show ?thesis using True by (simp add: find_pattern_def occurrences_def)
next
  case False
  from build_failure_function_correct [OF assms]
  obtain f where f: "build_failure_function pattern = Some f" "failure_upto pattern f (length pattern)"
    by blast
  have "longest_prefix_suffix pattern (take 0 text) (length pattern - 1) 0"
    using prefix_suffix_length [of pattern "[]"] by (auto simp: longest_prefix_suffix_def)
  from find_pattern_loop_correct [OF assms(1) f(2) _ this lim, of "[]"]
  have "find_pattern_loop text pattern f 0 0 [] = Some (map int_of_size (occurrences text pattern))"
    using assms(1) by (cases pattern) (simp_all add: occurrences_def)
  then show ?thesis using False assms(1) f(1) by (simp add: find_pattern_def)
qed

lemma occurrences_less: "q \<in> set (occurrences text pattern) \<Longrightarrow> q < length text + 1 - length pattern"
  by (simp add: occurrences_def)

lemma find_pattern_occurrences_small:
  assumes "pattern \<noteq> []" and "length text < 2 ^ 31"
  shows "find_pattern text pattern = Some (map int (occurrences text pattern))"
proof (cases "length pattern > length text")
  case True
  then have "length text + 1 - length pattern = 0" by simp
  then show ?thesis using True by (simp add: find_pattern_def occurrences_def)
next
  case False
  then have lim: "length pattern < 2 ^ 31" using assms(2) by simp
  have "int_of_size q = int q" if "q \<in> set (occurrences text pattern)" for q
  proof -
    have "q < 2 ^ 31" using occurrences_less [OF that] assms(2) by linarith
    then show ?thesis by (rule int_of_size_small)
  qed
  then have "map int_of_size (occurrences text pattern) = map int (occurrences text pattern)"
    by (intro map_cong) simp_all
  then show ?thesis using find_pattern_occurrences [OF assms(1) lim, of "text"] by simp
qed

lemma occurs_at_bound: "pattern \<noteq> [] \<Longrightarrow> occurs_at text pattern q \<Longrightarrow> q + length pattern \<le> length text"
proof -
  assume a: "pattern \<noteq> []" "occurs_at text pattern q"
  then have "length (take (length pattern) (drop q text)) = length pattern"
    by (simp add: occurs_at_def)
  then have "min (length text - q) (length pattern) = length pattern" by simp
  moreover have "0 < length pattern" using a(1) by simp
  ultimately show ?thesis by linarith
qed

lemma set_occurrences:
  assumes "length pattern \<le> length text"
  shows "set (occurrences text pattern) =
     {q. q \<le> length text - length pattern \<and> take (length pattern) (drop q text) = pattern}"
proof -
  have "q < length text + 1 - length pattern \<longleftrightarrow> q \<le> length text - length pattern" for q
    using assms by linarith
  then show ?thesis by (auto simp: occurrences_def occurs_at_def)
qed

lemma sorted_occurrences: "sorted_wrt (<) (map int (occurrences text pattern))"
proof -
  have "sorted_wrt (<) (occurrences text pattern)"
    unfolding occurrences_def by (rule sorted_wrt_filter) simp
  then show ?thesis by (simp add: sorted_wrt_map)
qed

lemma filter_upt_last:
  assumes "\<And>q. q < n \<Longrightarrow> \<not> P q" and "P n"
  shows "filter P [0..<Suc n] = [n]"
proof -
  have "filter P [0..<n] = []" using assms(1) by (simp add: filter_empty_conv)
  then show ?thesis using assms(2) by simp
qed

lemma occurs_at_single: "occurs_at text [c] q \<longleftrightarrow> q < length text \<and> text ! q = c"
proof (cases "q < length text")
  case True
  then have "drop q text = text ! q # drop (Suc q) text" by (simp add: Cons_nth_drop_Suc)
  then show ?thesis using True by (simp add: occurs_at_def)
next
  case False
  then show ?thesis by (simp add: occurs_at_def)
qed

lemma occurrences_replicate_snoc:
  assumes "a \<noteq> b"
  shows "occurrences (replicate n b @ [a]) [a] = [n]"
proof -
  have "filter (occurs_at (replicate n b @ [a]) [a]) [0..<Suc n] = [n]"
  proof (rule filter_upt_last)
    fix q assume "q < n"
    then have "(replicate n b @ [a]) ! q = b" by (simp add: nth_append)
    then show "\<not> occurs_at (replicate n b @ [a]) [a] q"
      using assms by (simp add: occurs_at_single)
  next
    have "(replicate n b @ [a]) ! n = a" using nth_append_length [of "replicate n b" a "[]"] by simp
    then show "occurs_at (replicate n b @ [a]) [a] n" by (simp add: occurs_at_single)
  qed
  then show ?thesis by (simp add: occurrences_def)
qed

text \<open>
  C2, as the claim states it, for every text, fails: when the only occurrence lies at
  offset \<open>2^31\<close>, the cast to \<open>int\<close> makes the offset returned \<open>-2^31\<close>, which is not an
  offset of the text.
\<close>

theorem find_pattern_cast_counterexample:
  "find_pattern (replicate (2 ^ 31) CHR ''b'' @ ''a'') ''a'' = Some [- 2147483648]"
proof -
  have "occurrences (replicate (2 ^ 31) CHR ''b'' @ ''a'') ''a'' = [2 ^ 31]"
    by (rule occurrences_replicate_snoc) simp
  moreover have "find_pattern (replicate (2 ^ 31) CHR ''b'' @ ''a'') ''a'' =
      Some (map int_of_size (occurrences (replicate (2 ^ 31) CHR ''b'' @ ''a'') ''a''))"
    by (rule find_pattern_occurrences) simp_all
  moreover have "int_of_size (2 ^ 31) = - 2147483648" by (simp add: int_of_size_mod)
  ultimately show ?thesis by simp
qed

text \<open>
  C2, amended. For a nonempty text of fewer than \<open>2^31\<close> characters and a nonempty
  pattern no longer than the text, \<open>find_pattern\<close> returns the offsets \<open>q\<close>,
  \<open>0 \<le> q \<le> |text| - |pattern|\<close>, at which the pattern occurs as a contiguous substring of
  the text: all of them (overlapping occurrences too) and nothing else, in strictly
  ascending order. On \<open>aaa\<close> and \<open>aa\<close> it returns \<open>[0, 1]\<close>.
\<close>

theorem find_pattern_all_occurrences:
  assumes "text \<noteq> []" and "pattern \<noteq> []" and "length pattern \<le> length text"
    and "length text < 2 ^ 31"
  shows "find_pattern text pattern = Some (map int (occurrences text pattern))
    \<and> set (occurrences text pattern) =
        {q. q \<le> length text - length pattern \<and> take (length pattern) (drop q text) = pattern}
    \<and> sorted_wrt (<) (map int (occurrences text pattern))
    \<and> find_pattern ''aaa'' ''aa'' = Some [0, 1]"
proof -
  have "find_pattern ''aaa'' ''aa'' = Some (map int (occurrences ''aaa'' ''aa''))"
    by (rule find_pattern_occurrences_small) simp_all
  then have "find_pattern ''aaa'' ''aa'' = Some [0, 1]"
    by (simp add: occurrences_def occurs_at_def)
  then show ?thesis
    using find_pattern_occurrences_small [OF assms(2,4)] set_occurrences [OF assms(3)]
      sorted_occurrences [of "text" pattern]
    by blast
qed

theorem find_pattern_all_occurrences_witness:
  "find_pattern ''abababa'' ''aba'' = Some [0, 2, 4]
   \<and> occurrences ''abababa'' ''aba'' = [0, 2, 4]"
  using find_pattern_all_occurrences [of "''abababa''" "''aba''"]
  by (simp add: occurrences_def occurs_at_def)

text \<open>
  C3. When the pattern is empty, or the text is empty, or the pattern is longer than
  the text, \<open>find_pattern\<close> returns the empty sequence, and it does return.
\<close>

theorem find_pattern_edge_cases:
  "pattern = [] \<or> text = [] \<or> length pattern > length text \<Longrightarrow> find_pattern text pattern = Some []"
  by (simp add: find_pattern_def)

theorem find_pattern_edge_cases_witness:
  "find_pattern ''abc'' [] = Some []
   \<and> find_pattern [] ''abc'' = Some []
   \<and> find_pattern [] [] = Some []
   \<and> find_pattern ''ab'' ''abcd'' = Some []"
  using find_pattern_edge_cases [of "[]" "''abc''"] find_pattern_edge_cases [of "''abc''" "[]"]
    find_pattern_edge_cases [of "[]" "[]"] find_pattern_edge_cases [of "''abcd''" "''ab''"]
  by simp

lemma length_occurrences_single: "length (occurrences text [c]) = count_list text c"
proof -
  have "filter (occurs_at text [c]) [0..<length text] = filter (\<lambda>q. text ! q = c) [0..<length text]"
    by (rule filter_cong) (simp_all add: occurs_at_single)
  then have "length (occurrences text [c]) = length (filter ((\<lambda>x. x = c) \<circ> (!) text) [0..<length text])"
    by (simp add: occurrences_def comp_def)
  also have "\<dots> = length (filter (\<lambda>x. x = c) (map ((!) text) [0..<length text]))"
    by (simp only: filter_map length_map)
  also have "\<dots> = length (filter (\<lambda>x. x = c) text)" by (simp only: map_nth)
  also have "\<dots> = length (filter ((=) c) text)"
    by (rule arg_cong [where f = length], rule filter_cong) auto
  finally show ?thesis by (simp add: count_list_eq_length_filter)
qed

text \<open>
  C10, as the claim states it, for every text, fails: on \<open>2^31\<close> copies of one
  character \<open>find_pattern\<close> returns \<open>2^31\<close> offsets, and \<open>count_char\<close> returns \<open>-2^31\<close>.
\<close>

theorem find_pattern_count_char_counterexample:
  "map_option (\<lambda>positions. int (length positions))
     (find_pattern (replicate (2 ^ 31) CHR ''a'') ''a'') = Some 2147483648
   \<and> count_char (replicate (2 ^ 31) CHR ''a'') CHR ''a'' = - 2147483648"
proof -
  have "find_pattern (replicate (2 ^ 31) CHR ''a'') ''a'' =
      Some (map int_of_size (occurrences (replicate (2 ^ 31) CHR ''a'') ''a''))"
    by (rule find_pattern_occurrences) simp_all
  then have "map_option (\<lambda>positions. int (length positions))
     (find_pattern (replicate (2 ^ 31) CHR ''a'') ''a'') = Some 2147483648"
    by (simp add: length_occurrences_single count_list_replicate)
  moreover have "replicate (2 ^ 31) CHR ''a'' \<noteq> []" by simp
  then have "count_char (replicate (2 ^ 31) CHR ''a'') CHR ''a'' = - 2147483648"
    by (simp add: count_char_def count_list_replicate int_of_size_mod)
  ultimately show ?thesis by blast
qed

text \<open>
  C10, amended. For every text of fewer than \<open>2^31\<close> characters and every character,
  the number of offsets \<open>find_pattern\<close> returns for the one-character pattern is
  \<open>count_char\<close> of the text and the character.
\<close>

theorem find_pattern_single_char_count:
  "length text < 2 ^ 31 \<Longrightarrow>
   map_option (\<lambda>positions. int (length positions)) (find_pattern text [c]) = Some (count_char text c)"
proof -
  assume len: "length text < 2 ^ 31"
  have "find_pattern text [c] = Some (map int_of_size (occurrences text [c]))"
    by (rule find_pattern_occurrences) simp_all
  then show ?thesis
    by (simp add: length_occurrences_single count_char_small [OF len])
qed

theorem find_pattern_single_char_count_witness:
  "length ''banana'' < 2 ^ 31
   \<and> map_option (\<lambda>positions. int (length positions)) (find_pattern ''banana'' ''a'') = Some 3
   \<and> count_char ''banana'' CHR ''a'' = 3"
proof -
  have len: "length ''banana'' < 2 ^ 31" by simp
  have c: "count_char ''banana'' CHR ''a'' = 3" by (simp add: count_char_small [OF len])
  show ?thesis
    using find_pattern_single_char_count [OF len, of "CHR ''a''"] len c by simp
qed

subsection \<open>Filling a table\<close>

lemma for_loop_invariant:
  assumes "I k s" and "k \<le> hi + 1"
    and "\<And>i s. k \<le> i \<Longrightarrow> i \<le> hi \<Longrightarrow> I i s \<Longrightarrow> I (i + 1) (body i s)"
  shows "I (hi + 1) (for_loop k hi body s)"
  using assms
proof (induction "hi + 1 - k" arbitrary: k s)
  case 0
  then have "k = hi + 1" by simp
  then have "for_loop k hi body s = s" by (subst for_loop.simps) simp
  then show ?case using 0 \<open>k = hi + 1\<close> by simp
next
  case (Suc d)
  then have k: "k \<le> hi" by simp
  have "I (hi + 1) (for_loop (k + 1) hi body (body k s))"
  proof (rule Suc.hyps(1))
    show "d = hi + 1 - (k + 1)" using Suc.hyps(2) by simp
    show "I (k + 1) (body k s)" using Suc.prems(1) k by (intro Suc.prems(3)) simp_all
    show "k + 1 \<le> hi + 1" using k by simp
    show "\<And>i s. k + 1 \<le> i \<Longrightarrow> i \<le> hi \<Longrightarrow> I i s \<Longrightarrow> I (i + 1) (body i s)"
      by (rule Suc.prems(3)) simp_all
  qed
  then show ?case using k by (subst for_loop.simps) simp
qed

lemma nth_replicate_le: "r \<le> m \<Longrightarrow> replicate (m + 1) x ! r = x"
  by (rule nth_replicate) simp

lemma dims_replicate: "dims (replicate (m + 1) (replicate (n + 1) v)) m n"
  unfolding dims_def
proof (intro conjI allI impI)
  show "length (replicate (m + 1) (replicate (n + 1) v)) = m + 1" by (rule length_replicate)
  fix r assume "r \<le> m"
  then have "replicate (m + 1) (replicate (n + 1) v) ! r = replicate (n + 1) v"
    by (rule nth_replicate_le)
  then show "length (replicate (m + 1) (replicate (n + 1) v) ! r) = n + 1"
    by (simp only: length_replicate)
qed

lemma cell_replicate: "r \<le> m \<Longrightarrow> c \<le> n \<Longrightarrow> cell (replicate (m + 1) (replicate (n + 1) v)) r c = v"
  unfolding cell_def by (simp only: nth_replicate_le)

lemma dims_set_cell: "dims dp m n \<Longrightarrow> dims (set_cell dp i j v) m n"
  unfolding dims_def set_cell_def
proof (intro conjI allI impI)
  assume a: "length dp = m + 1 \<and> (\<forall>r\<le>m. length (dp ! r) = n + 1)"
  show "length (dp[i := (dp ! i)[j := v]]) = m + 1" using a by simp
  fix r assume r: "r \<le> m"
  show "length (dp[i := (dp ! i)[j := v]] ! r) = n + 1"
  proof (cases "r = i")
    case True
    then show ?thesis using a r by simp
  next
    case False
    then show ?thesis using a r by simp
  qed
qed

lemma cell_set_cell:
  assumes "dims dp m n" "i \<le> m" "j \<le> n" "r \<le> m"
  shows "cell (set_cell dp i j v) r c = (if r = i \<and> c = j then v else cell dp r c)"
proof (cases "r = i")
  case True
  have "i < length dp" "j < length (dp ! i)" using assms by (simp_all add: dims_def)
  then show ?thesis using True by (simp add: cell_def set_cell_def nth_list_update)
next
  case False
  then show ?thesis by (simp add: cell_def set_cell_def)
qed

lemma filled_step:
  assumes f: "filled D dp m n i j" and i: "i \<le> m" and j: "j \<le> n"
  shows "filled D (set_cell dp i j (D i j)) m n i (j + 1)"
  unfolding filled_def
proof (intro conjI allI impI)
  have d: "dims dp m n" using f by (simp add: filled_def)
  show "dims (set_cell dp i j (D i j)) m n" using d by (rule dims_set_cell)
  fix r c
  assume a: "r \<le> m \<and> c \<le> n \<and> (r = 0 \<or> c = 0 \<or> r < i \<or> r = i \<and> c < j + 1)"
  show "cell (set_cell dp i j (D i j)) r c = D r c"
  proof (cases "r = i \<and> c = j")
    case True
    then show ?thesis using cell_set_cell [OF d i j, of r] a by simp
  next
    case False
    then have "r = 0 \<or> c = 0 \<or> r < i \<or> (r = i \<and> c < j)" using a by auto
    then have "cell dp r c = D r c" using f a unfolding filled_def by blast
    then show ?thesis using cell_set_cell [OF d i j, of r] a False by simp
  qed
qed

lemma fill_inner:
  assumes f: "filled D dp m n i 1" and i: "i \<le> m"
    and g: "\<And>dp j. 1 \<le> j \<Longrightarrow> j \<le> n \<Longrightarrow> filled D dp m n i j \<Longrightarrow> g dp i j = D i j"
  shows "filled D (for_loop 1 n (\<lambda>j dp. set_cell dp i j (g dp i j)) dp) m n i (n + 1)"
proof (rule for_loop_invariant [where I = "\<lambda>j dp. filled D dp m n i j"])
  show "filled D dp m n i 1" by (rule f)
  show "1 \<le> n + 1" by simp
  fix j dp assume a: "1 \<le> j" "j \<le> n" "filled D dp m n i j"
  then have "g dp i j = D i j" by (rule g)
  then show "filled D (set_cell dp i j (g dp i j)) m n i (j + 1)"
    using filled_step [OF a(3) i a(2)] by simp
qed

lemma filled_next_row: "filled D dp m n i (n + 1) \<Longrightarrow> filled D dp m n (i + 1) 1"
  unfolding filled_def
proof (intro conjI allI impI)
  assume a: "dims dp m n \<and>
    (\<forall>r c. r \<le> m \<and> c \<le> n \<and> (r = 0 \<or> c = 0 \<or> r < i \<or> r = i \<and> c < n + 1) \<longrightarrow> cell dp r c = D r c)"
  then show "dims dp m n" by simp
  fix r c
  assume b: "r \<le> m \<and> c \<le> n \<and> (r = 0 \<or> c = 0 \<or> r < i + 1 \<or> r = i + 1 \<and> c < 1)"
  then have "r \<le> m \<and> c \<le> n \<and> (r = 0 \<or> c = 0 \<or> r < i \<or> r = i \<and> c < n + 1)" by auto
  then show "cell dp r c = D r c" using a by blast
qed

lemma fill_outer:
  assumes f: "filled D dp m n 1 1"
    and g: "\<And>dp i j. 1 \<le> i \<Longrightarrow> i \<le> m \<Longrightarrow> 1 \<le> j \<Longrightarrow> j \<le> n \<Longrightarrow> filled D dp m n i j \<Longrightarrow> g dp i j = D i j"
  shows "filled D (for_loop 1 m (\<lambda>i dp. for_loop 1 n (\<lambda>j dp. set_cell dp i j (g dp i j)) dp) dp)
           m n (m + 1) 1"
proof (rule for_loop_invariant [where I = "\<lambda>i dp. filled D dp m n i 1"])
  show "filled D dp m n 1 1" by (rule f)
  show "1 \<le> m + 1" by simp
  fix i dp assume a: "1 \<le> i" "i \<le> m" "filled D dp m n i 1"
  have "filled D (for_loop 1 n (\<lambda>j dp. set_cell dp i j (g dp i j)) dp) m n i (n + 1)"
    using a(3) a(2)
  proof (rule fill_inner)
    fix dp j assume "1 \<le> j" "j \<le> n" "filled D dp m n i j"
    then show "g dp i j = D i j" using a(1,2) by (intro g)
  qed
  then show "filled D (for_loop 1 n (\<lambda>j dp. set_cell dp i j (g dp i j)) dp) m n (i + 1) 1"
    by (rule filled_next_row)
qed

lemma filled_all: "filled D dp m n (m + 1) 1 \<Longrightarrow> r \<le> m \<Longrightarrow> c \<le> n \<Longrightarrow> cell dp r c = D r c"
  unfolding filled_def by (metis less_Suc_eq_le Suc_eq_plus1)

subsection \<open>Edit distance\<close>

lemma lev_dp_0_left [simp]: "lev_dp s t 0 j = int j"
  by (cases j) simp_all

lemma lev_dp_le_up: "lev_dp s t (Suc i) j \<le> lev_dp s t i j + 1"
  by (cases j) simp_all

lemma lev_dp_le_left: "lev_dp s t i (Suc j) \<le> lev_dp s t i j + 1"
  by (cases i) simp_all

lemma lev_dp_right: "lev_dp s t i j \<le> lev_dp s t i (Suc j) + 1"
proof (induction i)
  case 0
  show ?case by simp
next
  case (Suc i)
  have a: "lev_dp s t (Suc i) j \<le> lev_dp s t i j + 1" by (rule lev_dp_le_up)
  have b: "lev_dp s t i j \<le> lev_dp s t i (Suc j) + 1" by (rule Suc.IH)
  show ?case using a b by (simp add: min_def)
qed

lemma lev_dp_down: "lev_dp s t i j \<le> lev_dp s t (Suc i) j + 1"
proof (induction j)
  case 0
  show ?case by simp
next
  case (Suc j)
  have a: "lev_dp s t i (Suc j) \<le> lev_dp s t i j + 1" by (rule lev_dp_le_left)
  have b: "lev_dp s t i j \<le> lev_dp s t (Suc i) j + 1" by (rule Suc.IH)
  show ?case using a b by (simp add: min_def)
qed

lemma lev_dp_code:
  "lev_dp s t (Suc i) (Suc j) =
     (if s ! i = t ! j then lev_dp s t i j
      else 1 + Min {lev_dp s t i (Suc j), lev_dp s t (Suc i) j, lev_dp s t i j})"
proof (cases "s ! i = t ! j")
  case True
  have "lev_dp s t i j \<le> lev_dp s t i (Suc j) + 1" by (rule lev_dp_right)
  moreover have "lev_dp s t i j \<le> lev_dp s t (Suc i) j + 1" by (rule lev_dp_down)
  ultimately show ?thesis using True by (simp add: min_def)
next
  case False
  then show ?thesis by (simp add: min_def)
qed

lemma lev_dp_same: "lev_dp s s i i = 0"
proof (induction i)
  case 0
  show ?case by simp
next
  case (Suc i)
  have "lev_dp s s (Suc i) (Suc i) = lev_dp s s i i" by (subst lev_dp_code) simp
  then show ?case using Suc.IH by simp
qed

lemma filled_cell:
  "filled D dp m n i j \<Longrightarrow> r \<le> m \<Longrightarrow> c \<le> n \<Longrightarrow>
   r = 0 \<or> c = 0 \<or> r < i \<or> (r = i \<and> c < j) \<Longrightarrow> cell dp r c = D r c"
  unfolding filled_def by blast

lemma levenshtein_cell_correct:
  assumes "1 \<le> i" "i \<le> m" "1 \<le> j" "j \<le> n" and f: "filled (lev_dp s t) dp m n i j"
  shows "levenshtein_cell s t dp i j = lev_dp s t i j"
proof -
  obtain i' j' where ij: "i = Suc i'" "j = Suc j'"
    using assms(1,3) by (metis One_nat_def Suc_le_D)
  have a: "cell dp i' j' = lev_dp s t i' j'"
    using assms(2,4) ij by (intro filled_cell [OF f]) simp_all
  have b: "cell dp i' (Suc j') = lev_dp s t i' (Suc j')"
    using assms(2,4) ij by (intro filled_cell [OF f]) simp_all
  have c: "cell dp (Suc i') j' = lev_dp s t (Suc i') j'"
    using assms(2,4) ij by (intro filled_cell [OF f]) simp_all
  show ?thesis
    unfolding levenshtein_cell_def ij lev_dp_code using a b c by simp
qed

lemma levenshtein_init_column:
  assumes "dims dp m n"
  shows "dims (for_loop 0 m (\<lambda>i dp. set_cell dp i 0 (int i)) dp) m n \<and>
         (\<forall>r<m + 1. cell (for_loop 0 m (\<lambda>i dp. set_cell dp i 0 (int i)) dp) r 0 = int r)"
proof (rule for_loop_invariant [where I = "\<lambda>i dp. dims dp m n \<and> (\<forall>r<i. cell dp r 0 = int r)"])
  show "dims dp m n \<and> (\<forall>r<0. cell dp r 0 = int r)" using assms by simp
  show "0 \<le> m + 1" by simp
  fix i dp
  assume a: "0 \<le> i" "i \<le> m" "dims dp m n \<and> (\<forall>r<i. cell dp r 0 = int r)"
  then have d: "dims dp m n" by simp
  have "cell (set_cell dp i 0 (int i)) r 0 = int r" if "r < i + 1" for r
  proof -
    have "r \<le> m" using that a(2) by simp
    then show ?thesis using cell_set_cell [OF d a(2), of 0 r "int i" 0] a(3) that
      by (cases "r = i") simp_all
  qed
  then show "dims (set_cell dp i 0 (int i)) m n \<and> (\<forall>r<i + 1. cell (set_cell dp i 0 (int i)) r 0 = int r)"
    using dims_set_cell [OF d] by blast
qed

lemma levenshtein_init_row:
  assumes "dims dp m n" and "\<forall>r<m + 1. cell dp r 0 = int r"
  shows "filled (lev_dp s t) (for_loop 0 n (\<lambda>j dp. set_cell dp 0 j (int j)) dp) m n 1 1"
proof -
  let ?I = "\<lambda>j dp. dims dp m n \<and> (\<forall>r<m + 1. cell dp r 0 = int r) \<and> (\<forall>c<j. cell dp 0 c = int c)"
  have "?I (n + 1) (for_loop 0 n (\<lambda>j dp. set_cell dp 0 j (int j)) dp)"
  proof (rule for_loop_invariant [where I = ?I])
    show "?I 0 dp" using assms by simp
    show "0 \<le> n + 1" by simp
    fix j dp
    assume a: "0 \<le> j" "j \<le> n" "?I j dp"
    then have d: "dims dp m n" by simp
    have upd: "cell (set_cell dp 0 j (int j)) r c = (if r = 0 \<and> c = j then int j else cell dp r c)"
      if "r \<le> m" for r c
      using cell_set_cell [OF d _ a(2) that, of 0] by simp
    have col: "cell (set_cell dp 0 j (int j)) r 0 = int r" if "r < m + 1" for r
      using upd [of r 0] that a(3) by auto
    have row: "cell (set_cell dp 0 j (int j)) 0 c = int c" if "c < j + 1" for c
      using upd [of 0 c] that a(3) by (cases "c = j") simp_all
    show "?I (j + 1) (set_cell dp 0 j (int j))"
      using dims_set_cell [OF d] col row by blast
  qed
  then have d: "dims (for_loop 0 n (\<lambda>j dp. set_cell dp 0 j (int j)) dp) m n"
    and col: "\<And>r. r \<le> m \<Longrightarrow> cell (for_loop 0 n (\<lambda>j dp. set_cell dp 0 j (int j)) dp) r 0 = int r"
    and row: "\<And>c. c \<le> n \<Longrightarrow> cell (for_loop 0 n (\<lambda>j dp. set_cell dp 0 j (int j)) dp) 0 c = int c"
    by simp_all
  show ?thesis
    unfolding filled_def
  proof (intro conjI allI impI)
    show "dims (for_loop 0 n (\<lambda>j dp. set_cell dp 0 j (int j)) dp) m n" by (rule d)
    fix r c
    assume "r \<le> m \<and> c \<le> n \<and> (r = 0 \<or> c = 0 \<or> r < 1 \<or> r = 1 \<and> c < 1)"
    then consider "r = 0" "c \<le> n" | "c = 0" "r \<le> m" by auto
    then show "cell (for_loop 0 n (\<lambda>j dp. set_cell dp 0 j (int j)) dp) r c = lev_dp s t r c"
    proof cases
      case 1 then show ?thesis using row by simp
    next
      case 2 then show ?thesis using col by simp
    qed
  qed
qed

lemma levenshtein_loops_lev_dp:
  "levenshtein_loops s t m n (replicate (m + 1) (replicate (n + 1) 0)) = lev_dp s t m n"
proof -
  define dp0 :: table where "dp0 = replicate (m + 1) (replicate (n + 1) 0)"
  define dp1 where "dp1 = for_loop 0 m (\<lambda>i dp. set_cell dp i 0 (int i)) dp0"
  define dp2 where "dp2 = for_loop 0 n (\<lambda>j dp. set_cell dp 0 j (int j)) dp1"
  define dp3 where "dp3 = for_loop 1 m (\<lambda>i dp.
      for_loop 1 n (\<lambda>j dp. set_cell dp i j (levenshtein_cell s t dp i j)) dp) dp2"
  have res: "levenshtein_loops s t m n dp0 = cell dp3 m n"
    by (simp add: levenshtein_loops_def Let_def dp3_def dp2_def dp1_def)
  have "dims dp0 m n" unfolding dp0_def by (rule dims_replicate)
  from levenshtein_init_column [OF this]
  have "dims dp1 m n" and "\<forall>r<m + 1. cell dp1 r 0 = int r" by (simp_all add: dp1_def)
  then have "filled (lev_dp s t) dp2 m n 1 1"
    unfolding dp2_def by (rule levenshtein_init_row)
  then have "filled (lev_dp s t) dp3 m n (m + 1) 1"
    unfolding dp3_def by (rule fill_outer) (rule levenshtein_cell_correct)
  then have "cell dp3 m n = lev_dp s t m n" by (rule filled_all) simp_all
  then show ?thesis using res by (simp add: dp0_def)
qed

lemma new_table_small:
  assumes "x < 2 ^ 31 - 1" and "y < 2 ^ 31 - 1"
  shows "new_table (int_of_size x) (int_of_size y) = Inr (replicate (x + 1) (replicate (y + 1) 0))"
proof -
  have x: "int_of_size x = int x" using assms(1) by (intro int_of_size_small) simp
  have y: "int_of_size y = int y" using assms(2) by (intro int_of_size_small) simp
  have nx: "nat (int x + 1) = x + 1" and ny: "nat (int y + 1) = y + 1" by simp_all
  have "int x \<noteq> 2 ^ 31 - 1" "int y \<noteq> 2 ^ 31 - 1" using assms by simp_all
  then show ?thesis unfolding new_table_def x y nx ny by simp
qed

lemma levenshtein_distance_loops:
  assumes "length s < 2 ^ 31 - 1" and "length t < 2 ^ 31 - 1"
  shows "levenshtein_distance s t =
     Inr (levenshtein_loops s t (length s) (length t)
            (replicate (length s + 1) (replicate (length t + 1) 0)))"
proof -
  have x: "int_of_size (length s) = int (length s)" using assms(1) by (intro int_of_size_small) simp
  have y: "int_of_size (length t) = int (length t)" using assms(2) by (intro int_of_size_small) simp
  define dp0 :: table where "dp0 = replicate (length s + 1) (replicate (length t + 1) 0)"
  have tab: "new_table (int_of_size (length s)) (int_of_size (length t)) = Inr dp0"
    unfolding dp0_def using assms by (rule new_table_small)
  show ?thesis
    unfolding levenshtein_distance_def Let_def tab dp0_def [symmetric]
    by (simp add: x y)
qed

lemma levenshtein_distance_lev_dp:
  assumes "length s < 2 ^ 31 - 1" and "length t < 2 ^ 31 - 1"
  shows "levenshtein_distance s t = Inr (lev_dp s t (length s) (length t))"
  unfolding levenshtein_distance_loops [OF assms] levenshtein_loops_lev_dp ..

lemma lev_dp_nonneg: "0 \<le> lev_dp s t i j"
  by (induction s t i j rule: lev_dp.induct) (auto simp: min_def)

lemma lev_dp_prefix:
  "(\<And>a. a < i \<Longrightarrow> s ! a = s' ! a) \<Longrightarrow> (\<And>b. b < j \<Longrightarrow> t ! b = t' ! b) \<Longrightarrow>
   lev_dp s t i j = lev_dp s' t' i j"
proof (induction s t i j rule: lev_dp.induct)
  case (1 s t i)
  show ?case by simp
next
  case (2 s t j)
  show ?case by simp
next
  case (3 s t i j)
  have a: "lev_dp s t i (Suc j) = lev_dp s' t' i (Suc j)"
    using "3.prems" by (intro "3.IH"(1)) simp_all
  have b: "lev_dp s t (Suc i) j = lev_dp s' t' (Suc i) j"
    using "3.prems" by (intro "3.IH"(2)) simp_all
  have c: "lev_dp s t i j = lev_dp s' t' i j"
    using "3.prems" by (intro "3.IH"(3)) simp_all
  have d: "s ! i = s' ! i" "t ! j = t' ! j" using "3.prems" by simp_all
  show ?case by (simp only: lev_dp.simps a b c d)
qed

lemma lev_dp_snoc_left:
  "lev_dp (xs @ [x]) ys (length xs) j = lev_dp xs ys (length xs) j"
  by (rule lev_dp_prefix) (simp_all add: nth_append)

lemma lev_dp_snoc_right:
  "lev_dp xs (ys @ [y]) i (length ys) = lev_dp xs ys i (length ys)"
  by (rule lev_dp_prefix) (simp_all add: nth_append)

lemma lev_dp_snoc_both:
  "lev_dp (xs @ [x]) (ys @ [y]) (length xs) (length ys) = lev_dp xs ys (length xs) (length ys)"
  by (rule lev_dp_prefix) (simp_all add: nth_append)

lemma edits_lower_bound:
  "edits xs ys k \<Longrightarrow> lev_dp xs ys (length xs) (length ys) \<le> int k"
proof (induction rule: edits.induct)
  case edits_empty
  show ?case by simp
next
  case (edits_delete xs ys k x)
  have "lev_dp (xs @ [x]) ys (Suc (length xs)) (length ys)
      \<le> lev_dp (xs @ [x]) ys (length xs) (length ys) + 1"
    by (rule lev_dp_le_up)
  then show ?case using edits_delete.IH by (simp add: lev_dp_snoc_left)
next
  case (edits_insert xs ys k y)
  have "lev_dp xs (ys @ [y]) (length xs) (Suc (length ys))
      \<le> lev_dp xs (ys @ [y]) (length xs) (length ys) + 1"
    by (rule lev_dp_le_left)
  then show ?case using edits_insert.IH by (simp add: lev_dp_snoc_right)
next
  case (edits_substitute xs ys k x y)
  have "lev_dp (xs @ [x]) (ys @ [y]) (length (xs @ [x])) (length (ys @ [y])) =
      lev_dp (xs @ [x]) (ys @ [y]) (Suc (length xs)) (Suc (length ys))"
    by (simp only: length_append_singleton)
  also have "\<dots> \<le> lev_dp (xs @ [x]) (ys @ [y]) (length xs) (length ys) + 1"
    by (simp add: min_def)
  also have "\<dots> = lev_dp xs ys (length xs) (length ys) + 1"
    by (simp only: lev_dp_snoc_both)
  also have "\<dots> \<le> int (Suc k)" using edits_substitute.IH by simp
  finally show ?case .
next
  case (edits_match xs ys k x)
  have "lev_dp (xs @ [x]) (ys @ [x]) (length (xs @ [x])) (length (ys @ [x])) =
      lev_dp (xs @ [x]) (ys @ [x]) (Suc (length xs)) (Suc (length ys))"
    by (simp only: length_append_singleton)
  also have "\<dots> \<le> lev_dp (xs @ [x]) (ys @ [x]) (length xs) (length ys)"
    by (simp add: min_def)
  also have "\<dots> = lev_dp xs ys (length xs) (length ys)"
    by (simp only: lev_dp_snoc_both)
  also have "\<dots> \<le> int k" using edits_match.IH by simp
  finally show ?case .
qed

lemma edits_delete_all: "i \<le> length s \<Longrightarrow> edits (take i s) [] i"
proof (induction i)
  case 0
  show ?case by (simp add: edits_empty)
next
  case (Suc i)
  then have "edits (take i s) [] i" by simp
  then have "edits (take i s @ [s ! i]) [] (Suc i)" by (rule edits_delete)
  then show ?case using Suc.prems by (simp add: take_Suc_conv_app_nth)
qed

lemma edits_insert_all: "j \<le> length t \<Longrightarrow> edits [] (take j t) j"
proof (induction j)
  case 0
  show ?case by (simp add: edits_empty)
next
  case (Suc j)
  then have "edits [] (take j t) j" by simp
  then have "edits [] (take j t @ [t ! j]) (Suc j)" by (rule edits_insert)
  then show ?case using Suc.prems by (simp add: take_Suc_conv_app_nth)
qed

lemma edits_attained:
  "i \<le> length s \<Longrightarrow> j \<le> length t \<Longrightarrow>
   \<exists>k. edits (take i s) (take j t) k \<and> lev_dp s t i j = int k"
proof (induction s t i j rule: lev_dp.induct)
  case (1 s t i)
  then show ?case using edits_delete_all [of i s] by auto
next
  case (2 s t j)
  then show ?case using edits_insert_all [of "Suc j" t] by auto
next
  case (3 s t i j)
  have i: "i < length s" and j: "j < length t" using "3.prems" by simp_all
  have ts: "take (Suc i) s = take i s @ [s ! i]" using i by (rule take_Suc_conv_app_nth)
  have tt: "take (Suc j) t = take j t @ [t ! j]" using j by (rule take_Suc_conv_app_nth)
  obtain k1 where k1: "edits (take i s) (take (Suc j) t) k1" "lev_dp s t i (Suc j) = int k1"
    using "3.IH"(1) i "3.prems"(2) by auto
  obtain k2 where k2: "edits (take (Suc i) s) (take j t) k2" "lev_dp s t (Suc i) j = int k2"
    using "3.IH"(2) "3.prems"(1) j by auto
  obtain k3 where k3: "edits (take i s) (take j t) k3" "lev_dp s t i j = int k3"
    using "3.IH"(3) i j by auto
  have e1: "edits (take (Suc i) s) (take (Suc j) t) (Suc k1)"
    unfolding ts using k1(1) by (rule edits_delete)
  have e2: "edits (take (Suc i) s) (take (Suc j) t) (Suc k2)"
    unfolding tt using k2(1) by (rule edits_insert)
  have e3: "edits (take (Suc i) s) (take (Suc j) t) (Suc k3)"
    unfolding ts tt using k3(1) by (rule edits_substitute)
  have e4: "edits (take (Suc i) s) (take (Suc j) t) k3" if "s ! i = t ! j"
    unfolding ts tt that using k3(1) by (rule edits_match)
  define c :: nat where "c = (if s ! i = t ! j then 0 else 1)"
  have val: "lev_dp s t (Suc i) (Suc j) = int (min (min (Suc k1) (Suc k2)) (k3 + c))"
    by (simp add: k1(2) k2(2) k3(2) c_def min_def)
  have "edits (take (Suc i) s) (take (Suc j) t) (min (min (Suc k1) (Suc k2)) (k3 + c))"
    using e1 e2 e3 e4 by (auto simp: min_def c_def)
  then show ?case using val by blast
qed

text \<open>
  C8, as the claim states it, for every pair of strings, fails: of a first string of
  \<open>2^32\<close> characters the routine keeps the length 0, and returns 0 for its distance to
  the empty string, where the recurrence gives \<open>2^32\<close> and no sequence of fewer edits
  exists. On a first string of \<open>2^31\<close> characters the construction of the table throws
  \<open>std::length_error\<close>.
\<close>

theorem levenshtein_distance_truncation_counterexample:
  "levenshtein_distance (replicate (2 ^ 32) CHR ''a'') [] = Inr 0
   \<and> lev_dp (replicate (2 ^ 32) CHR ''a'') []
        (length (replicate (2 ^ 32) CHR ''a'')) (length ([] :: string)) = 4294967296
   \<and> \<not> edits (replicate (2 ^ 32) CHR ''a'') [] 0
   \<and> levenshtein_distance (replicate (2 ^ 31) CHR ''a'') [] = Inl Length_error"
proof -
  have m: "int_of_size (length (replicate (2 ^ 32) CHR ''a'')) = 0"
    by (simp add: int_of_size_mod)
  have n: "int_of_size (length ([] :: string)) = 0"
    by (simp add: int_of_size_mod)
  have tab: "new_table 0 0 = Inr (replicate (0 + 1) (replicate (0 + 1) 0))"
    by (simp add: new_table_def)
  have a: "levenshtein_distance (replicate (2 ^ 32) CHR ''a'') [] = Inr 0"
    unfolding levenshtein_distance_def Let_def m n tab
    using levenshtein_loops_lev_dp [of "replicate (2 ^ 32) CHR ''a''" "[]" 0 0] by simp
  have b: "lev_dp (replicate (2 ^ 32) CHR ''a'') []
        (length (replicate (2 ^ 32) CHR ''a'')) (length ([] :: string)) = 4294967296"
    by simp
  have c: "\<not> edits (replicate (2 ^ 32) CHR ''a'') [] 0"
  proof
    assume "edits (replicate (2 ^ 32) CHR ''a'') [] 0"
    then have "lev_dp (replicate (2 ^ 32) CHR ''a'') []
        (length (replicate (2 ^ 32) CHR ''a'')) (length ([] :: string)) \<le> int 0"
      by (rule edits_lower_bound)
    then show False unfolding b by simp
  qed
  have m': "int_of_size (length (replicate (2 ^ 31) CHR ''a'')) = - 2147483648"
    by (simp add: int_of_size_mod)
  have d: "levenshtein_distance (replicate (2 ^ 31) CHR ''a'') [] = Inl Length_error"
    unfolding levenshtein_distance_def Let_def m' n by (simp add: new_table_def)
  from a b c d show ?thesis by blast
qed

text \<open>
  C8, amended. For every pair of strings of fewer than \<open>2^31 - 1\<close> characters each,
  \<open>levenshtein_distance\<close> returns the value of the classic recurrence (base cases
  \<open>dp[i][0] = i\<close> and \<open>dp[0][j] = j\<close>, cost 1 for an insertion, a deletion or a
  substitution, cost 0 for a match) at the lengths of the two strings. That value is
  the edit distance: some sequence of that many edits turns the first string into the
  second, and none is shorter. The distance of such a string to itself is 0, and the
  distance of \<open>kitten\<close> to \<open>sitting\<close> is 3.
\<close>

theorem levenshtein_distance_recurrence:
  assumes "length str1 < 2 ^ 31 - 1" and "length str2 < 2 ^ 31 - 1" and "length s < 2 ^ 31 - 1"
  shows "levenshtein_distance str1 str2 = Inr (lev_dp str1 str2 (length str1) (length str2))
   \<and> (\<exists>k. edits str1 str2 k \<and> levenshtein_distance str1 str2 = Inr (int k))
   \<and> (\<forall>k. edits str1 str2 k \<longrightarrow>
         (\<exists>d. levenshtein_distance str1 str2 = Inr d \<and> d \<le> int k))
   \<and> levenshtein_distance s s = Inr 0
   \<and> levenshtein_distance ''kitten'' ''sitting'' = Inr 3"
proof -
  have rec: "levenshtein_distance str1 str2 = Inr (lev_dp str1 str2 (length str1) (length str2))"
    using assms(1,2) by (rule levenshtein_distance_lev_dp)
  have "\<exists>k. edits (take (length str1) str1) (take (length str2) str2) k \<and>
      lev_dp str1 str2 (length str1) (length str2) = int k"
    by (rule edits_attained) simp_all
  then have attained: "\<exists>k. edits str1 str2 k \<and> levenshtein_distance str1 str2 = Inr (int k)"
    by (simp add: rec)
  have least: "\<forall>k. edits str1 str2 k \<longrightarrow>
      (\<exists>d. levenshtein_distance str1 str2 = Inr d \<and> d \<le> int k)"
    unfolding rec using edits_lower_bound by blast
  have same: "levenshtein_distance s s = Inr 0"
    using levenshtein_distance_lev_dp [OF assms(3) assms(3)] by (simp add: lev_dp_same)
  have "levenshtein_distance ''kitten'' ''sitting'' =
      Inr (levenshtein_loops ''kitten'' ''sitting'' (length ''kitten'') (length ''sitting'')
             (replicate (length ''kitten'' + 1) (replicate (length ''sitting'' + 1) 0)))"
    by (rule levenshtein_distance_loops) simp_all
  also have "levenshtein_loops ''kitten'' ''sitting'' (length ''kitten'') (length ''sitting'')
      (replicate (length ''kitten'' + 1) (replicate (length ''sitting'' + 1) 0)) = 3"
    by code_simp
  finally have ex: "levenshtein_distance ''kitten'' ''sitting'' = Inr 3" .
  from rec attained least same ex show ?thesis by blast
qed

theorem levenshtein_distance_recurrence_witness:
  "length ''ab'' < 2 ^ 31 - 1 \<and> length ''b'' < 2 ^ 31 - 1
   \<and> edits ''ab'' ''b'' 1
   \<and> (\<exists>d. levenshtein_distance ''ab'' ''b'' = Inr d \<and> d \<le> 1)"
proof -
  have "edits ([] @ [CHR ''a'']) [] (Suc 0)"
    by (rule edits_delete [OF edits_empty])
  then have "edits (([] @ [CHR ''a'']) @ [CHR ''b'']) ([] @ [CHR ''b'']) (Suc 0)"
    by (rule edits_match)
  then have e: "edits ''ab'' ''b'' 1" by simp
  have l: "length ''ab'' < 2 ^ 31 - 1" "length ''b'' < 2 ^ 31 - 1" "length ([] :: string) < 2 ^ 31 - 1"
    by simp_all
  have "\<forall>k. edits ''ab'' ''b'' k \<longrightarrow>
      (\<exists>d. levenshtein_distance ''ab'' ''b'' = Inr d \<and> d \<le> int k)"
    using levenshtein_distance_recurrence [OF l] by blast
  then have "\<exists>d. levenshtein_distance ''ab'' ''b'' = Inr d \<and> d \<le> int 1" using e by blast
  then show ?thesis using e l by simp
qed

subsection \<open>Longest common subsequence\<close>

lemma lcs_dp_0_right [simp]: "lcs_dp s t i 0 = 0"
  by (cases i) simp_all

lemma lcs_dp_nonneg: "0 \<le> lcs_dp s t i j"
  by (induction s t i j rule: lcs_dp.induct) (auto simp: max_def)

lemma lcs_cell_correct:
  assumes "1 \<le> i" "i \<le> m" "1 \<le> j" "j \<le> n" and f: "filled (lcs_dp s t) dp m n i j"
  shows "lcs_cell s t dp i j = lcs_dp s t i j"
proof -
  obtain i' j' where ij: "i = Suc i'" "j = Suc j'"
    using assms(1,3) by (metis One_nat_def Suc_le_D)
  have a: "cell dp i' j' = lcs_dp s t i' j'"
    using assms(2,4) ij by (intro filled_cell [OF f]) simp_all
  have b: "cell dp i' (Suc j') = lcs_dp s t i' (Suc j')"
    using assms(2,4) ij by (intro filled_cell [OF f]) simp_all
  have c: "cell dp (Suc i') j' = lcs_dp s t (Suc i') j'"
    using assms(2,4) ij by (intro filled_cell [OF f]) simp_all
  show ?thesis
    unfolding lcs_cell_def ij using a b c by simp
qed

lemma lcs_filled_init:
  "filled (lcs_dp s t) (replicate (m + 1) (replicate (n + 1) 0)) m n 1 1"
  unfolding filled_def
proof (intro conjI allI impI)
  show "dims (replicate (m + 1) (replicate (n + 1) 0)) m n" by (rule dims_replicate)
  fix r c
  assume a: "r \<le> m \<and> c \<le> n \<and> (r = 0 \<or> c = 0 \<or> r < 1 \<or> r = 1 \<and> c < 1)"
  then have "r = 0 \<or> c = 0" by auto
  then have "lcs_dp s t r c = 0" by auto
  then show "cell (replicate (m + 1) (replicate (n + 1) 0)) r c = lcs_dp s t r c"
    using a cell_replicate [of r m c n 0] by simp
qed

lemma lcs_table:
  assumes "r \<le> m" "c \<le> n"
  shows "cell (for_loop 1 m (\<lambda>i dp.
            for_loop 1 n (\<lambda>j dp. set_cell dp i j (lcs_cell s t dp i j)) dp)
          (replicate (m + 1) (replicate (n + 1) 0))) r c = lcs_dp s t r c"
proof -
  have "filled (lcs_dp s t) (for_loop 1 m (\<lambda>i dp.
            for_loop 1 n (\<lambda>j dp. set_cell dp i j (lcs_cell s t dp i j)) dp)
          (replicate (m + 1) (replicate (n + 1) 0))) m n (m + 1) 1"
    using lcs_filled_init by (rule fill_outer) (rule lcs_cell_correct)
  then show ?thesis using assms by (rule filled_all)
qed

lemma lcs_backtrack_spec:
  assumes tab: "\<And>r c. r \<le> m \<Longrightarrow> c \<le> n \<Longrightarrow> cell dp r c = lcs_dp s t r c"
  shows "i \<le> m \<Longrightarrow> j \<le> n \<Longrightarrow> lcs_backtrack s t dp i j acc = backtrack_spec False s t i j acc"
proof (induction "i + j" arbitrary: i j acc rule: less_induct)
  case less
  show ?case
  proof (cases "i > 0 \<and> j > 0")
    case False
    then show ?thesis
      using lcs_backtrack.simps [of s t dp i j acc] backtrack_spec.simps [of False s t i j acc]
      by auto
  next
    case True
    have up: "cell dp (i - 1) j = lcs_dp s t (i - 1) j"
      and left: "cell dp i (j - 1) = lcs_dp s t i (j - 1)"
      using less.prems by (simp_all add: tab)
    have IH1: "lcs_backtrack s t dp (i - 1) (j - 1) acc' = backtrack_spec False s t (i - 1) (j - 1) acc'" for acc'
      using True less.prems by (intro less.hyps) simp_all
    have IH2: "lcs_backtrack s t dp (i - 1) j acc = backtrack_spec False s t (i - 1) j acc"
      using True less.prems by (intro less.hyps) simp_all
    have IH3: "lcs_backtrack s t dp i (j - 1) acc = backtrack_spec False s t i (j - 1) acc"
      using True less.prems by (intro less.hyps) simp_all
    have a: "lcs_backtrack s t dp i j acc =
        (if s ! (i - 1) = t ! (j - 1)
         then backtrack_spec False s t (i - 1) (j - 1) (s ! (i - 1) # acc)
         else if lcs_dp s t (i - 1) j > lcs_dp s t i (j - 1)
         then backtrack_spec False s t (i - 1) j acc
         else backtrack_spec False s t i (j - 1) acc)"
      using True by (subst lcs_backtrack.simps) (simp only: up left IH1 IH2 IH3 if_True simp_thms)
    have b: "backtrack_spec False s t i j acc =
        (if s ! (i - 1) = t ! (j - 1)
         then backtrack_spec False s t (i - 1) (j - 1) (s ! (i - 1) # acc)
         else if lcs_dp s t (i - 1) j > lcs_dp s t i (j - 1)
         then backtrack_spec False s t (i - 1) j acc
         else backtrack_spec False s t i (j - 1) acc)"
      using True by (subst backtrack_spec.simps) auto
    show ?thesis by (simp only: a b)
  qed
qed

lemma subseq_take_mono:
  assumes "subseq r (take a s)" and "a \<le> b"
  shows "subseq r (take b s)"
proof -
  have "take a (take b s) = take a s" using assms(2) by (simp add: min_def)
  then have "take b s = take a s @ drop a (take b s)"
    using append_take_drop_id [of a "take b s"] by simp
  then show ?thesis using subseq_rev_drop_many [OF assms(1), of "drop a (take b s)"] by simp
qed

lemma subseq_take_snoc:
  assumes "subseq r (take i s)" and "i < length s"
  shows "subseq (r @ [s ! i]) (take (Suc i) s)"
proof -
  have "take (Suc i) s = take i s @ [s ! i]" using assms(2) by (rule take_Suc_conv_app_nth)
  then show ?thesis using assms(1) by simp
qed

lemma subseq_snoc_neq:
  assumes "subseq (w @ [y]) (xs @ [x])" and "y \<noteq> x"
  shows "subseq (w @ [y]) xs"
proof -
  from assms(1) obtain w1 w2 where w: "w @ [y] = w1 @ w2" "subseq w1 xs" "subseq w2 [x]"
    by (rule subseq_appendE)
  have "length w2 \<le> 1" using list_emb_length [OF w(3)] by simp
  then consider "w2 = []" | z where "w2 = [z]"
    by (cases w2) (auto simp: length_Suc_conv)
  then show ?thesis
  proof cases
    case 1
    then show ?thesis using w by simp
  next
    case 2
    then have "subseq [z] [x]" using w(3) by simp
    then have "z = x" unfolding subseq_singleton_left by simp
    then have "y = x" using w(1) 2 by simp
    then show ?thesis using assms(2) by simp
  qed
qed

lemma lcs_dp_upper:
  "i \<le> length s \<Longrightarrow> j \<le> length t \<Longrightarrow> subseq w (take i s) \<Longrightarrow> subseq w (take j t) \<Longrightarrow>
   int (length w) \<le> lcs_dp s t i j"
proof (induction s t i j arbitrary: w rule: lcs_dp.induct)
  case (1 s t j)
  then show ?case by simp
next
  case (2 s t i)
  then show ?case by simp
next
  case (3 s t i j)
  have i: "i < length s" and j: "j < length t" using "3.prems" by simp_all
  have ts: "take (Suc i) s = take i s @ [s ! i]" using i by (rule take_Suc_conv_app_nth)
  have tt: "take (Suc j) t = take j t @ [t ! j]" using j by (rule take_Suc_conv_app_nth)
  show ?case
  proof (cases w rule: rev_cases)
    case Nil
    then show ?thesis using lcs_dp_nonneg [of s t "Suc i" "Suc j"] by simp
  next
    case (snoc w' y)
    have ws: "subseq (w' @ [y]) (take i s @ [s ! i])" using "3.prems"(3) snoc ts by simp
    have wt: "subseq (w' @ [y]) (take j t @ [t ! j])" using "3.prems"(4) snoc tt by simp
    show ?thesis
    proof (cases "s ! i = t ! j")
      case True
      show ?thesis
      proof (cases "y = s ! i")
        case y: True
        then have "subseq w' (take i s)" "subseq w' (take j t)"
          using ws wt True by simp_all
        then have "int (length w') \<le> lcs_dp s t i j"
          using i j True by (intro "3.IH"(1)) simp_all
        then show ?thesis using True snoc by simp
      next
        case y: False
        then have "subseq w (take i s)" "subseq w (take j t)"
          using subseq_snoc_neq [OF ws] subseq_snoc_neq [OF wt] True snoc by simp_all
        then have "int (length w) \<le> lcs_dp s t i j"
          using i j True by (intro "3.IH"(1)) simp_all
        then show ?thesis using True by simp
      qed
    next
      case False
      show ?thesis
      proof (cases "y = s ! i")
        case y: True
        then have "y \<noteq> t ! j" using False by simp
        then have "subseq w (take j t)" using subseq_snoc_neq [OF wt] snoc by simp
        then have "int (length w) \<le> lcs_dp s t (Suc i) j"
          using "3.prems"(1,3) j False by (intro "3.IH"(3)) simp_all
        then show ?thesis using False by simp
      next
        case y: False
        then have "subseq w (take i s)" using subseq_snoc_neq [OF ws] snoc by simp
        then have "int (length w) \<le> lcs_dp s t i (Suc j)"
          using "3.prems"(2,4) i False by (intro "3.IH"(2)) simp_all
        then show ?thesis using False by simp
      qed
    qed
  qed
qed

lemma backtrack_spec_stop: "i = 0 \<or> j = 0 \<Longrightarrow> backtrack_spec tie s t i j acc = acc"
  by (subst backtrack_spec.simps) simp

lemma backtrack_spec_Suc:
  "backtrack_spec tie s t (Suc i) (Suc j) acc =
     (if s ! i = t ! j then backtrack_spec tie s t i j (s ! i # acc)
      else if lcs_dp s t i (Suc j) > lcs_dp s t (Suc i) j
             \<or> (lcs_dp s t i (Suc j) = lcs_dp s t (Suc i) j \<and> tie)
      then backtrack_spec tie s t i (Suc j) acc
      else backtrack_spec tie s t (Suc i) j acc)"
  by (subst backtrack_spec.simps) auto

lemma backtrack_spec_optimal:
  "i \<le> length s \<Longrightarrow> j \<le> length t \<Longrightarrow>
   \<exists>r. backtrack_spec tie s t i j acc = r @ acc \<and> subseq r (take i s) \<and> subseq r (take j t) \<and>
       int (length r) = lcs_dp s t i j"
proof (induction "i + j" arbitrary: i j acc rule: less_induct)
  case less
  show ?case
  proof (cases "i = 0 \<or> j = 0")
    case True
    then have "backtrack_spec tie s t i j acc = [] @ acc" by (simp add: backtrack_spec_stop)
    moreover have "lcs_dp s t i j = 0" using True by auto
    ultimately show ?thesis by (intro exI [of _ "[]"]) simp
  next
    case False
    then obtain i' j' where ij: "i = Suc i'" "j = Suc j'"
      by (metis not0_implies_Suc)
    have i': "i' < length s" and j': "j' < length t" using less.prems ij by simp_all
    show ?thesis
    proof (cases "s ! i' = t ! j'")
      case True
      have "\<exists>r. backtrack_spec tie s t i' j' (s ! i' # acc) = r @ (s ! i' # acc) \<and>
          subseq r (take i' s) \<and> subseq r (take j' t) \<and> int (length r) = lcs_dp s t i' j'"
        using i' j' ij by (intro less.hyps) simp_all
      then obtain r where r: "backtrack_spec tie s t i' j' (s ! i' # acc) = r @ (s ! i' # acc)"
        "subseq r (take i' s)" "subseq r (take j' t)" "int (length r) = lcs_dp s t i' j'"
        by blast
      have "backtrack_spec tie s t (Suc i') (Suc j') acc = backtrack_spec tie s t i' j' (s ! i' # acc)"
        by (subst backtrack_spec_Suc) (simp only: True if_True simp_thms)
      then have "backtrack_spec tie s t i j acc = (r @ [s ! i']) @ acc"
        unfolding ij using r(1) by simp
      moreover have "subseq (r @ [s ! i']) (take i s)"
        unfolding ij using r(2) i' by (rule subseq_take_snoc)
      moreover have "subseq (r @ [t ! j']) (take j t)"
        unfolding ij using r(3) j' by (rule subseq_take_snoc)
      moreover have "int (length (r @ [s ! i'])) = lcs_dp s t i j"
        unfolding ij using True r(4) by simp
      ultimately show ?thesis using True by (intro exI [of _ "r @ [s ! i']"]) simp
    next
      case False
      show ?thesis
      proof (cases "lcs_dp s t i' (Suc j') > lcs_dp s t (Suc i') j'
             \<or> (lcs_dp s t i' (Suc j') = lcs_dp s t (Suc i') j' \<and> tie)")
        case up: True
        have "\<exists>r. backtrack_spec tie s t i' (Suc j') acc = r @ acc \<and>
            subseq r (take i' s) \<and> subseq r (take (Suc j') t) \<and>
            int (length r) = lcs_dp s t i' (Suc j')"
          using i' j' ij by (intro less.hyps) simp_all
        then obtain r where r: "backtrack_spec tie s t i' (Suc j') acc = r @ acc"
          "subseq r (take i' s)" "subseq r (take (Suc j') t)"
          "int (length r) = lcs_dp s t i' (Suc j')"
          by blast
        have "backtrack_spec tie s t (Suc i') (Suc j') acc = backtrack_spec tie s t i' (Suc j') acc"
          by (subst backtrack_spec_Suc) (simp only: False up if_False if_True simp_thms)
        then have "backtrack_spec tie s t i j acc = r @ acc"
          unfolding ij using r(1) by simp
        moreover have "subseq r (take i s)"
          unfolding ij using r(2) by (rule subseq_take_mono) simp
        moreover have "int (length r) = lcs_dp s t i j"
          unfolding ij using False up r(4) by auto
        ultimately show ?thesis using r(3) ij by (intro exI [of _ r]) simp
      next
        case left: False
        have "\<exists>r. backtrack_spec tie s t (Suc i') j' acc = r @ acc \<and>
            subseq r (take (Suc i') s) \<and> subseq r (take j' t) \<and>
            int (length r) = lcs_dp s t (Suc i') j'"
          using i' j' ij by (intro less.hyps) simp_all
        then obtain r where r: "backtrack_spec tie s t (Suc i') j' acc = r @ acc"
          "subseq r (take (Suc i') s)" "subseq r (take j' t)"
          "int (length r) = lcs_dp s t (Suc i') j'"
          by blast
        have "backtrack_spec tie s t (Suc i') (Suc j') acc = backtrack_spec tie s t (Suc i') j' acc"
          by (subst backtrack_spec_Suc) (simp only: False left if_False simp_thms)
        then have "backtrack_spec tie s t i j acc = r @ acc"
          unfolding ij using r(1) by simp
        moreover have "subseq r (take j t)"
          unfolding ij using r(3) by (rule subseq_take_mono) simp
        moreover have "int (length r) = lcs_dp s t i j"
          unfolding ij using False left r(4) by auto
        ultimately show ?thesis using r(2) ij by (intro exI [of _ r]) simp
      qed
    qed
  qed
qed

lemma lcs_loops_spec:
  "lcs_loops s t m n (replicate (m + 1) (replicate (n + 1) 0)) = backtrack_spec False s t m n []"
  unfolding lcs_loops_def Let_def
proof (rule lcs_backtrack_spec [where m = m and n = n])
  show "m \<le> m" "n \<le> n" by simp_all
  fix r c assume "r \<le> m" "c \<le> n"
  then show "cell (for_loop 1 m (\<lambda>i dp.
            for_loop 1 n (\<lambda>j dp. set_cell dp i j (lcs_cell s t dp i j)) dp)
          (replicate (m + 1) (replicate (n + 1) 0))) r c = lcs_dp s t r c"
    by (rule lcs_table)
qed

lemma longest_common_subsequence_loops:
  assumes "length s < 2 ^ 31 - 1" and "length t < 2 ^ 31 - 1"
  shows "longest_common_subsequence s t =
     Inr (lcs_loops s t (length s) (length t)
            (replicate (length s + 1) (replicate (length t + 1) 0)))"
proof -
  have x: "int_of_size (length s) = int (length s)" using assms(1) by (intro int_of_size_small) simp
  have y: "int_of_size (length t) = int (length t)" using assms(2) by (intro int_of_size_small) simp
  define dp0 :: table where "dp0 = replicate (length s + 1) (replicate (length t + 1) 0)"
  have tab: "new_table (int_of_size (length s)) (int_of_size (length t)) = Inr dp0"
    unfolding dp0_def using assms by (rule new_table_small)
  show ?thesis
    unfolding longest_common_subsequence_def Let_def tab dp0_def [symmetric]
    by (simp add: x y)
qed

lemma longest_common_subsequence_spec:
  assumes "length s < 2 ^ 31 - 1" and "length t < 2 ^ 31 - 1"
  shows "longest_common_subsequence s t = Inr (backtrack_spec False s t (length s) (length t) [])"
  unfolding longest_common_subsequence_loops [OF assms] lcs_loops_spec ..

text \<open>
  C1, as the claim states it, with a tie broken upwards and for every pair of strings,
  fails. On \<open>ab\<close> and \<open>ba\<close> the cells above and to the left of the bottom-right cell both
  hold 1; the routine goes left and returns \<open>b\<close>, where going up gives \<open>a\<close>. Of a first
  string of \<open>2^32\<close> characters \<open>a\<close> the routine keeps the length 0 and returns the empty
  string, where the backtracking from the bottom-right cell gives \<open>a\<close>, a common
  subsequence.
\<close>

theorem lcs_tie_break_counterexample:
  "longest_common_subsequence ''ab'' ''ba'' = Inr ''b''
   \<and> backtrack_spec True ''ab'' ''ba'' (length ''ab'') (length ''ba'') [] = ''a''
   \<and> longest_common_subsequence (replicate (2 ^ 32) CHR ''a'') ''a'' = Inr []
   \<and> backtrack_spec False (replicate (2 ^ 32) CHR ''a'') ''a''
        (length (replicate (2 ^ 32) CHR ''a'')) (length ''a'') [] = ''a''
   \<and> subseq ''a'' (replicate (2 ^ 32) CHR ''a'')"
proof -
  have "longest_common_subsequence ''ab'' ''ba'' =
      Inr (lcs_loops ''ab'' ''ba'' (length ''ab'') (length ''ba'')
             (replicate (length ''ab'' + 1) (replicate (length ''ba'' + 1) 0)))"
    by (rule longest_common_subsequence_loops) simp_all
  also have "lcs_loops ''ab'' ''ba'' (length ''ab'') (length ''ba'')
      (replicate (length ''ab'' + 1) (replicate (length ''ba'' + 1) 0)) = ''b''"
    by code_simp
  finally have a: "longest_common_subsequence ''ab'' ''ba'' = Inr ''b''" .
  have b: "backtrack_spec True ''ab'' ''ba'' (length ''ab'') (length ''ba'') [] = ''a''"
    by code_simp
  have m: "int_of_size (length (replicate (2 ^ 32) CHR ''a'')) = 0"
    by (simp add: int_of_size_mod)
  have n: "int_of_size (length ''a'') = 1"
    by (simp add: int_of_size_mod)
  have r: "replicate (0 + 1) (replicate (1 + 1) (0::int)) = [[0, 0]]"
    by (simp add: numeral_2_eq_2)
  have tab: "new_table 0 1 = Inr [[0, 0]]"
    by (simp add: new_table_def numeral_2_eq_2)
  have "lcs_loops (replicate (2 ^ 32) CHR ''a'') ''a'' 0 1
      (replicate (0 + 1) (replicate (1 + 1) 0)) =
      backtrack_spec False (replicate (2 ^ 32) CHR ''a'') ''a'' 0 1 []"
    by (rule lcs_loops_spec)
  also have "\<dots> = []" by (rule backtrack_spec_stop) simp
  finally have loops: "lcs_loops (replicate (2 ^ 32) CHR ''a'') ''a'' 0 1 [[0, 0]] = []"
    unfolding r .
  have c: "longest_common_subsequence (replicate (2 ^ 32) CHR ''a'') ''a'' = Inr []"
    unfolding longest_common_subsequence_def Let_def m n tab
    using loops by simp
  have "backtrack_spec False (replicate (2 ^ 32) CHR ''a'') ''a'' (Suc (2 ^ 32 - 1)) (Suc 0) [] =
      backtrack_spec False (replicate (2 ^ 32) CHR ''a'') ''a'' (2 ^ 32 - 1) 0 ''a''"
    by (subst backtrack_spec_Suc) simp
  also have "\<dots> = ''a''" by (rule backtrack_spec_stop) simp
  finally have d: "backtrack_spec False (replicate (2 ^ 32) CHR ''a'') ''a''
        (length (replicate (2 ^ 32) CHR ''a'')) (length ''a'') [] = ''a''"
    by simp
  have "replicate (1 + (2 ^ 32 - 1)) CHR ''a'' = replicate 1 CHR ''a'' @ replicate (2 ^ 32 - 1) CHR ''a''"
    by (rule replicate_add)
  then have "prefix ''a'' (replicate (2 ^ 32) CHR ''a'')"
    by (simp add: prefix_def)
  then have e: "subseq ''a'' (replicate (2 ^ 32) CHR ''a'')"
    by (rule prefix_imp_subseq)
  from a b c d e show ?thesis by blast
qed

text \<open>
  C1, amended. For every pair of strings of fewer than \<open>2^31 - 1\<close> characters each,
  \<open>longest_common_subsequence\<close> returns the common subsequence obtained by backtracking
  from the bottom-right cell of the standard table, going to the larger neighbouring cell
  when the characters differ and, when the two neighbours are equal, decrementing the
  second index (going left). It is a subsequence of both strings, its length is the value
  of the bottom-right cell, and no common subsequence is longer.
\<close>

theorem longest_common_subsequence_optimal:
  assumes "length str1 < 2 ^ 31 - 1" and "length str2 < 2 ^ 31 - 1"
  shows "\<exists>r. longest_common_subsequence str1 str2 = Inr r
     \<and> r = backtrack_spec False str1 str2 (length str1) (length str2) []
     \<and> subseq r str1
     \<and> subseq r str2
     \<and> int (length r) = lcs_dp str1 str2 (length str1) (length str2)
     \<and> (\<forall>w. subseq w str1 \<and> subseq w str2 \<longrightarrow> length w \<le> length r)"
proof -
  have "\<exists>r. backtrack_spec False str1 str2 (length str1) (length str2) [] = r @ [] \<and>
      subseq r (take (length str1) str1) \<and> subseq r (take (length str2) str2) \<and>
      int (length r) = lcs_dp str1 str2 (length str1) (length str2)"
    by (rule backtrack_spec_optimal) simp_all
  then obtain r where r0: "backtrack_spec False str1 str2 (length str1) (length str2) [] = r @ []"
    "subseq r (take (length str1) str1)" "subseq r (take (length str2) str2)"
    "int (length r) = lcs_dp str1 str2 (length str1) (length str2)"
    by blast
  have r: "r = backtrack_spec False str1 str2 (length str1) (length str2) []"
    "subseq r str1" "subseq r str2"
    using r0(1-3) by simp_all
  have eq: "longest_common_subsequence str1 str2 = Inr r"
    using longest_common_subsequence_spec [OF assms] r(1) by simp
  have ub: "length w \<le> length r" if "subseq w str1 \<and> subseq w str2" for w
  proof -
    have "subseq w (take (length str1) str1)" "subseq w (take (length str2) str2)"
      using that by simp_all
    then have "int (length w) \<le> lcs_dp str1 str2 (length str1) (length str2)"
      by (intro lcs_dp_upper) simp_all
    then show ?thesis using r0(4) by simp
  qed
  have "\<forall>w. subseq w str1 \<and> subseq w str2 \<longrightarrow> length w \<le> length r"
    using ub by blast
  with eq r r0(4) show ?thesis by blast
qed

theorem longest_common_subsequence_optimal_witness:
  "length ''abc'' < 2 ^ 31 - 1 \<and> length ''bca'' < 2 ^ 31 - 1
   \<and> longest_common_subsequence ''abc'' ''bca'' = Inr ''bc''
   \<and> subseq ''c'' ''abc'' \<and> subseq ''c'' ''bca''
   \<and> length ''c'' \<le> length ''bc''"
proof -
  have "longest_common_subsequence ''abc'' ''bca'' =
      Inr (lcs_loops ''abc'' ''bca'' (length ''abc'') (length ''bca'')
             (replicate (length ''abc'' + 1) (replicate (length ''bca'' + 1) 0)))"
    by (rule longest_common_subsequence_loops) simp_all
  also have "lcs_loops ''abc'' ''bca'' (length ''abc'') (length ''bca'')
      (replicate (length ''abc'' + 1) (replicate (length ''bca'' + 1) 0)) = ''bc''"
    by code_simp
  finally have a: "longest_common_subsequence ''abc'' ''bca'' = Inr ''bc''" .
  have b: "subseq ''c'' ''abc''" "subseq ''c'' ''bca''" by simp_all
  have l: "length ''abc'' < 2 ^ 31 - 1" "length ''bca'' < 2 ^ 31 - 1" by simp_all
  have "\<exists>r. longest_common_subsequence ''abc'' ''bca'' = Inr r
     \<and> (\<forall>w. subseq w ''abc'' \<and> subseq w ''bca'' \<longrightarrow> length w \<le> length r)"
    using longest_common_subsequence_optimal [OF l] by blast
  then have "length ''c'' \<le> length ''bc''" using a b by auto
  then show ?thesis using a b l by blast
qed

end
